theory Spec2Isabelle
  imports Main "HOL-Library.AList" "HOL-Library.Code_Target_Nat"
begin

section \<open>Strings\<close>

text \<open>
  A JavaScript string is a sequence of UTF-16 code units; it is modelled as a list of
  code units (natural numbers).  Identifiers, names, labels, tokens and the enumerated
  tags (\<open>"male"\<close>, \<open>"he"\<close>, \<open>"mother"\<close>, ...) are all strings of this type.  An
  ASCII literal is written \<open>ascii ''...''\<close>; the Cyrillic letters of the program's
  vocabulary have one abbreviation each (\<open>cy_a\<close> is U+0430, \<open>Cy_o\<close> is U+041E).
\<close>

type_synonym jsstring = "nat list"

abbreviation ascii :: "string \<Rightarrow> jsstring" where
  "ascii s \<equiv> map of_char s"

abbreviation cy_a :: nat where "cy_a \<equiv> 1072"
abbreviation cy_b :: nat where "cy_b \<equiv> 1073"
abbreviation cy_v :: nat where "cy_v \<equiv> 1074"
abbreviation cy_g :: nat where "cy_g \<equiv> 1075"
abbreviation cy_d :: nat where "cy_d \<equiv> 1076"
abbreviation cy_e :: nat where "cy_e \<equiv> 1077"
abbreviation cy_zh :: nat where "cy_zh \<equiv> 1078"
abbreviation cy_z :: nat where "cy_z \<equiv> 1079"
abbreviation cy_i :: nat where "cy_i \<equiv> 1080"
abbreviation cy_j :: nat where "cy_j \<equiv> 1081"
abbreviation cy_k :: nat where "cy_k \<equiv> 1082"
abbreviation cy_l :: nat where "cy_l \<equiv> 1083"
abbreviation cy_m :: nat where "cy_m \<equiv> 1084"
abbreviation cy_n :: nat where "cy_n \<equiv> 1085"
abbreviation cy_o :: nat where "cy_o \<equiv> 1086"
abbreviation cy_p :: nat where "cy_p \<equiv> 1087"
abbreviation cy_r :: nat where "cy_r \<equiv> 1088"
abbreviation cy_s :: nat where "cy_s \<equiv> 1089"
abbreviation cy_t :: nat where "cy_t \<equiv> 1090"
abbreviation cy_u :: nat where "cy_u \<equiv> 1091"
abbreviation cy_f :: nat where "cy_f \<equiv> 1092"
abbreviation cy_h :: nat where "cy_h \<equiv> 1093"
abbreviation cy_c :: nat where "cy_c \<equiv> 1094"
abbreviation cy_ch :: nat where "cy_ch \<equiv> 1095"
abbreviation cy_sh :: nat where "cy_sh \<equiv> 1096"
abbreviation cy_sch :: nat where "cy_sch \<equiv> 1097"
abbreviation cy_hard :: nat where "cy_hard \<equiv> 1098"
abbreviation cy_y :: nat where "cy_y \<equiv> 1099"
abbreviation cy_soft :: nat where "cy_soft \<equiv> 1100"
abbreviation cy_eh :: nat where "cy_eh \<equiv> 1101"
abbreviation cy_yu :: nat where "cy_yu \<equiv> 1102"
abbreviation cy_ya :: nat where "cy_ya \<equiv> 1103"
abbreviation cy_yo :: nat where "cy_yo \<equiv> 1105"
abbreviation Cy_d :: nat where "Cy_d \<equiv> 1044"
abbreviation Cy_e :: nat where "Cy_e \<equiv> 1045"
abbreviation Cy_yo :: nat where "Cy_yo \<equiv> 1025"
abbreviation Cy_l :: nat where "Cy_l \<equiv> 1051"
abbreviation Cy_m :: nat where "Cy_m \<equiv> 1052"
abbreviation Cy_n :: nat where "Cy_n \<equiv> 1053"
abbreviation Cy_o :: nat where "Cy_o \<equiv> 1054"
abbreviation Cy_p :: nat where "Cy_p \<equiv> 1055"
abbreviation Cy_r :: nat where "Cy_r \<equiv> 1056"
abbreviation Cy_s :: nat where "Cy_s \<equiv> 1057"
abbreviation Cy_u :: nat where "Cy_u \<equiv> 1059"
abbreviation en_dash :: nat where "en_dash \<equiv> 8211"
abbreviation em_dash :: nat where "em_dash \<equiv> 8212"
abbreviation right_arrow :: nat where "right_arrow \<equiv> 8594"
abbreviation laquo :: nat where "laquo \<equiv> 171"
abbreviation raquo :: nat where "raquo \<equiv> 187"

text \<open>
  \<open>String(n)\<close> and \<open>${n}\<close> for a non-negative integer \<open>n\<close>: its decimal digits.
\<close>

fun show_nat :: "nat \<Rightarrow> jsstring" where
  "show_nat n = (if n < 10 then [48 + n] else show_nat (n div 10) @ [48 + n mod 10])"

declare show_nat.simps [simp del]

definition show_int :: "int \<Rightarrow> jsstring" where
  "show_int i = (if i < 0 then ascii ''-'' @ show_nat (nat (- i)) else show_nat (nat i))"

section \<open>Entity model\<close>

text \<open>
  \<open>Person\<close> is \<open>{ id, name, sex, note? }\<close> and \<open>ParentEdge\<close> is
  \<open>{ parentId, childId }\<close>.  The fields \<open>id\<close> and \<open>note\<close> are called \<open>pid\<close> and
  \<open>pnote\<close> here.
\<close>

record person =
  pid :: jsstring
  name :: jsstring
  sex :: jsstring
  pnote :: "jsstring option"

record edge =
  parentId :: jsstring
  childId :: jsstring

section \<open>Objects used as dictionaries\<close>

text \<open>
  A plain object used as a dictionary is an association list in insertion order:
  \<open>obj[k]\<close> is \<open>map_of obj k\<close>, \<open>k in obj\<close> is \<open>map_of obj k \<noteq> None\<close>, and
  \<open>obj[k] = v\<close> is \<open>AList.update k v obj\<close>, which keeps the position of a key that
  is already present and appends a new one.

  That is the behaviour of the program for every key that is not the name of a property
  which all objects inherit (\<open>inherited\<close>, the properties of \<open>Object.prototype\<close>).  For
  such a name \<open>obj[k]\<close> and \<open>k in obj\<close> find the inherited property when the object
  has no entry of its own, and an assignment to \<open>__proto__\<close> adds no entry.  The
  dictionaries of the classifier (\<open>byId\<close>, \<open>parentsOf\<close>, \<open>childrenOf\<close>, \<open>depths\<close>,
  \<open>prev\<close>) have identifiers as their keys.  The definitions below are the program on
  identifiers that are plain (\<open>plain_id\<close>, and \<open>plain_index\<close>, \<open>plain_graph\<close> for all
  identifiers of an index and of a graph); they say nothing about the program on other
  identifiers, and every theorem about the classifier has the plainness of the
  identifiers it uses as a hypothesis.

  \<open>Object.keys\<close> lists the keys that are array indices (canonical decimal numerals
  below \<open>2^32 - 1\<close>) first, in ascending numeric order, and then the other keys in
  insertion order.
\<close>

type_synonym 'v obj = "(jsstring \<times> 'v) list"

definition inherited :: "jsstring list" where
  "inherited =
     [ascii ''constructor'', ascii ''__proto__'', ascii ''hasOwnProperty'',
      ascii ''isPrototypeOf'', ascii ''propertyIsEnumerable'', ascii ''toLocaleString'',
      ascii ''toString'', ascii ''valueOf'', ascii ''__defineGetter__'',
      ascii ''__defineSetter__'', ascii ''__lookupGetter__'', ascii ''__lookupSetter__'']"

definition plain_id :: "jsstring \<Rightarrow> bool" where
  "plain_id k = (k \<notin> set inherited)"

definition plain_index :: "jsstring list obj \<Rightarrow> bool" where
  "plain_index parentsOf =
     list_all (\<lambda>(k, ps). plain_id k \<and> list_all plain_id ps) parentsOf"

definition plain_graph :: "person list \<Rightarrow> edge list \<Rightarrow> bool" where
  "plain_graph people edges =
     (list_all (\<lambda>p. plain_id (pid p)) people
      \<and> list_all (\<lambda>e. plain_id (parentId e) \<and> plain_id (childId e)) edges)"

definition is_digit :: "nat \<Rightarrow> bool" where
  "is_digit c = (48 \<le> c \<and> c \<le> 57)"

definition decimal_value :: "jsstring \<Rightarrow> nat" where
  "decimal_value s = foldl (\<lambda>n c. 10 * n + (c - 48)) 0 s"

definition is_array_index :: "jsstring \<Rightarrow> bool" where
  "is_array_index s =
     (s \<noteq> [] \<and> list_all is_digit s \<and> (if length s = 1 then True else hd s \<noteq> 48)
      \<and> decimal_value s < 4294967295)"

definition ownKeys :: "'v obj \<Rightarrow> jsstring list" where
  "ownKeys al =
     sort_key decimal_value (filter is_array_index (map fst al))
     @ filter (\<lambda>k. \<not> is_array_index k) (map fst al)"

section \<open>Graph index builder\<close>

text \<open>
  \<open>buildIndexes\<close> gives every person an entry (the last person of an id wins in
  \<open>byId\<close>; the parent and child lists start empty) and then pushes every edge to the
  list of its child and to the list of its parent, creating the list when an endpoint is
  not a person.
\<close>

definition push_to :: "jsstring list obj \<Rightarrow> jsstring \<Rightarrow> jsstring \<Rightarrow> jsstring list obj" where
  "push_to idx k v =
     (case map_of idx k of
        None \<Rightarrow> AList.update k [v] idx
      | Some xs \<Rightarrow> AList.update k (xs @ [v]) idx)"

definition index_byId :: "person list \<Rightarrow> person obj" where
  "index_byId people = foldl (\<lambda>m p. AList.update (pid p) p m) [] people"

definition index_empty :: "person list \<Rightarrow> jsstring list obj" where
  "index_empty people = foldl (\<lambda>m p. AList.update (pid p) [] m) [] people"

definition index_parentsOf :: "person list \<Rightarrow> edge list \<Rightarrow> jsstring list obj" where
  "index_parentsOf people edges =
     foldl (\<lambda>m e. push_to m (childId e) (parentId e)) (index_empty people) edges"

definition index_childrenOf :: "person list \<Rightarrow> edge list \<Rightarrow> jsstring list obj" where
  "index_childrenOf people edges =
     foldl (\<lambda>m e. push_to m (parentId e) (childId e)) (index_empty people) edges"

definition buildIndexes ::
  "person list \<Rightarrow> edge list \<Rightarrow> person obj \<times> jsstring list obj \<times> jsstring list obj" where
  "buildIndexes people edges =
     (index_byId people, index_parentsOf people edges, index_childrenOf people edges)"

text \<open>
  \<open>parentsOf[cur] || []\<close> for a plain id \<open>cur\<close>: the list of the entry, or the empty
  list when there is no entry.
\<close>

definition parents_of :: "jsstring list obj \<Rightarrow> jsstring \<Rightarrow> jsstring list" where
  "parents_of parentsOf cur = (case map_of parentsOf cur of None \<Rightarrow> [] | Some ps \<Rightarrow> ps)"

section \<open>Ancestor distance calculator\<close>

text \<open>
  \<open>getAncestors\<close> is a breadth-first search with a queue of \<open>(id, d)\<close> pairs, the set
  \<open>seen\<close> and the dictionary \<open>depths\<close>.  \<open>getAncestors_for\<close> is the inner \<open>for\<close>
  loop over the parents of the dequeued node, \<open>getAncestors_while\<close> the \<open>while\<close> loop
  over the queue.  The state is the triple \<open>(depths, seen, queue)\<close>.  The keys of
  \<open>depths\<close> are parent ids; for a plain id \<open>p\<close> the assignment to \<open>depths[p]\<close> is the
  update of the association list.
\<close>

type_synonym walk = "nat obj \<times> jsstring list \<times> (jsstring \<times> nat) list"

fun getAncestors_for :: "nat \<Rightarrow> jsstring list \<Rightarrow> walk \<Rightarrow> walk" where
  "getAncestors_for d [] w = w"
| "getAncestors_for d (p # ps) (depths, seen, queue) =
     getAncestors_for d ps
       (if p \<in> set seen then (depths, seen, queue)
        else (AList.update p
                (case map_of depths p of
                   None \<Rightarrow> d + 1
                 | Some x \<Rightarrow> if x < d + 1 then x else d + 1)
                depths,
              seen @ [p],
              queue @ [(p, d + 1)]))"

definition universe :: "jsstring list obj \<Rightarrow> jsstring set" where
  "universe parentsOf = set (concat (map snd parentsOf))"

lemma parents_of_universe: "set (parents_of parentsOf cur) \<subseteq> universe parentsOf"
proof (cases "map_of parentsOf cur")
  case None
  then show ?thesis by (simp add: parents_of_def)
next
  case (Some ps)
  then have "(cur, ps) \<in> set parentsOf" by (rule map_of_SomeD)
  then have "set ps \<subseteq> universe parentsOf" by (force simp: universe_def)
  with Some show ?thesis by (simp add: parents_of_def)
qed

lemma getAncestors_for_measure:
  assumes "set ps \<subseteq> U" and "finite U"
    and "getAncestors_for d ps (depths, seen, queue) = (depths', seen', queue')"
  shows "card (U - set seen') + length queue' = card (U - set seen) + length queue"
  using assms
proof (induction ps arbitrary: depths seen queue)
  case Nil
  then show ?case by simp
next
  case (Cons p ps)
  show ?case
  proof (cases "p \<in> set seen")
    case True
    with Cons show ?thesis by simp
  next
    case False
    let ?seen = "seen @ [p]"
    let ?queue = "queue @ [(p, d + 1)]"
    from Cons.prems False obtain dp where
      step: "getAncestors_for d ps (dp, ?seen, ?queue) = (depths', seen', queue')"
      by simp
    from Cons.prems have sub: "set ps \<subseteq> U" and pU: "p \<in> U" by auto
    have "card (U - set seen') + length queue' = card (U - set ?seen) + length ?queue"
      using Cons.IH [OF sub \<open>finite U\<close> step] .
    moreover have "U - set ?seen = (U - set seen) - {p}" by auto
    moreover have "p \<in> U - set seen" using pU False by simp
    moreover have "finite (U - set seen)" using \<open>finite U\<close> by simp
    moreover have "card (U - set seen) = Suc (card (U - set seen - {p}))"
      using \<open>finite (U - set seen)\<close> \<open>p \<in> U - set seen\<close> by (rule card.remove)
    ultimately show ?thesis by simp
  qed
qed

function getAncestors_while ::
  "jsstring list obj \<Rightarrow> nat obj \<Rightarrow> jsstring list \<Rightarrow> (jsstring \<times> nat) list \<Rightarrow> nat obj" where
  "getAncestors_while parentsOf depths seen [] = depths"
| "getAncestors_while parentsOf depths seen ((cur, d) # queue) =
     (case getAncestors_for d (parents_of parentsOf cur) (depths, seen, queue) of
        (depths', seen', queue') \<Rightarrow> getAncestors_while parentsOf depths' seen' queue')"
  by pat_completeness auto
termination
proof (relation "measure (\<lambda>(parentsOf, depths, seen, queue).
         card (universe parentsOf - set seen) + length queue)", goal_cases)
  case 1
  show ?case by simp
next
  case (2 parentsOf depths seen cur d queue depths' y seen' queue')
  then have "getAncestors_for d (parents_of parentsOf cur) (depths, seen, queue)
      = (depths', seen', queue')" by simp
  from getAncestors_for_measure [OF parents_of_universe _ this]
  have "card (universe parentsOf - set seen') + length queue'
      = card (universe parentsOf - set seen) + length queue"
    by (simp add: universe_def)
  then show ?case by simp
qed

definition getAncestors :: "jsstring \<Rightarrow> jsstring list obj \<Rightarrow> nat obj" where
  "getAncestors i parentsOf = getAncestors_while parentsOf [] [i] [(i, 0)]"

section \<open>LCA resolver\<close>

text \<open>
  \<open>findLCA\<close> runs over \<open>Object.keys(A)\<close>; \<open>findLCA_step\<close> is the body of the loop
  with \<open>best\<close> as its state (\<open>None\<close> is \<open>null\<close>).  A key of \<open>A\<close> always has a value
  in \<open>A\<close>, so the branch for \<open>map_of A k = None\<close> is never taken.  The tests \<open>id in B\<close>
  of \<open>findLCA\<close> and \<open>a in ancestors\<close> of \<open>isAncestorOf\<close> are lookups in the association
  list, for plain ids.
\<close>

definition findLCA_step ::
  "nat obj \<Rightarrow> nat obj \<Rightarrow> (jsstring \<times> nat \<times> nat) option \<Rightarrow> jsstring
     \<Rightarrow> (jsstring \<times> nat \<times> nat) option" where
  "findLCA_step A B best k =
     (case map_of B k of
        None \<Rightarrow> best
      | Some dB \<Rightarrow>
          (case map_of A k of
             None \<Rightarrow> best
           | Some dA \<Rightarrow>
               (case best of
                  None \<Rightarrow> Some (k, dA, dB)
                | Some (bid, bA, bB) \<Rightarrow>
                    if dA + dB < bA + bB \<or> (dA + dB = bA + bB \<and> max dA dB < max bA bB)
                    then Some (k, dA, dB) else best)))"

definition findLCA ::
  "jsstring \<Rightarrow> jsstring \<Rightarrow> jsstring list obj \<Rightarrow> (jsstring \<times> nat \<times> nat) option" where
  "findLCA a b parentsOf =
     (let A = getAncestors a parentsOf; B = getAncestors b parentsOf
      in foldl (findLCA_step A B) None (ownKeys A))"

definition isAncestorOf :: "jsstring \<Rightarrow> jsstring \<Rightarrow> jsstring list obj \<Rightarrow> int" where
  "isAncestorOf a b parentsOf =
     (case map_of (getAncestors b parentsOf) a of None \<Rightarrow> - 1 | Some d \<Rightarrow> int d)"

section \<open>Relationship classifier\<close>

subsection \<open>Sexed words\<close>

definition sexNoun :: "jsstring \<Rightarrow> jsstring \<Rightarrow> jsstring \<Rightarrow> jsstring \<Rightarrow> jsstring" where
  "sexNoun sx male female neutral =
     (if sx = ascii ''female'' then female else if sx = ascii ''male'' then male else neutral)"

definition cousinDegreeWord :: "int \<Rightarrow> jsstring" where
  "cousinDegreeWord n =
     (if n \<le> 0 then []
      else if n = 1 then [cy_d, cy_v, cy_o, cy_yu, cy_r, cy_o, cy_d, cy_n]
      else if n = 2 then [cy_t, cy_r, cy_o, cy_yu, cy_r, cy_o, cy_d, cy_n]
      else if n = 3 then [cy_ch, cy_e, cy_t, cy_v, cy_e, cy_r, cy_o, cy_yu, cy_r, cy_o, cy_d, cy_n]
      else if n = 4 then [cy_p, cy_ya, cy_t, cy_o, cy_yu, cy_r, cy_o, cy_d, cy_n]
      else show_int n @ (ascii ''-'' @ [cy_yu, cy_r, cy_o, cy_d, cy_n]))"

subsection \<open>One path up to an ancestor\<close>

text \<open>
  \<open>pathToAncestor\<close> walks the parent relation layer by layer and records for every
  node it discovers the node it was discovered from (\<open>prev\<close>).  When the scan of a layer
  meets the ancestor, the path is rebuilt by following \<open>prev\<close> back to \<open>fromId\<close>
  (\<open>pathToAncestor_climb\<close>, the loop \<open>while (u && u !== fromId)\<close>; \<open>None\<close> is
  \<open>undefined\<close>, and the empty string is falsy as well).  That loop follows a dictionary
  and is not bounded by its form, so it is a partial function: \<open>None\<close> as the result of
  the climb means that the loop does not end.  \<open>pathToAncestor_parents\<close> is the loop over
  the parents of one node, \<open>pathToAncestor_layer\<close> the loop over one layer (\<open>Inl\<close> is the
  early return), and \<open>pathToAncestor_while\<close> the loop over the layers.  The state of the
  scan is \<open>(seen, prev, next)\<close>.
\<close>

type_synonym scan = "jsstring list \<times> jsstring obj \<times> jsstring list"

fun pathToAncestor_parents :: "jsstring \<Rightarrow> jsstring list \<Rightarrow> scan \<Rightarrow> scan" where
  "pathToAncestor_parents v [] st = st"
| "pathToAncestor_parents v (p # ps) (seen, prev, nxt) =
     pathToAncestor_parents v ps
       (if p \<in> set seen then (seen, prev, nxt)
        else (seen @ [p], AList.update p v prev, nxt @ [p]))"

partial_function (option) pathToAncestor_climb ::
  "jsstring obj \<Rightarrow> jsstring \<Rightarrow> jsstring option \<Rightarrow> jsstring list \<Rightarrow> jsstring list option" where
  "pathToAncestor_climb prev fromId u path =
     (case u of
        None \<Rightarrow> Some path
      | Some x \<Rightarrow>
          if x = [] \<or> x = fromId then Some path
          else pathToAncestor_climb prev fromId (map_of prev x) (path @ [x]))"

declare pathToAncestor_climb.simps [code]

fun pathToAncestor_layer ::
  "jsstring \<Rightarrow> jsstring \<Rightarrow> jsstring list obj \<Rightarrow> jsstring list \<Rightarrow> scan
     \<Rightarrow> jsstring list option + scan" where
  "pathToAncestor_layer fromId ancestorId parentsOf [] st = Inr st"
| "pathToAncestor_layer fromId ancestorId parentsOf (v # vs) (seen, prev, nxt) =
     (if v = ancestorId
      then Inl (map_option (\<lambda>path. fromId # rev path)
                  (pathToAncestor_climb prev fromId (Some v) []))
      else pathToAncestor_layer fromId ancestorId parentsOf vs
             (pathToAncestor_parents v (parents_of parentsOf v) (seen, prev, nxt)))"

lemma pathToAncestor_parents_grows:
  assumes "pathToAncestor_parents v ps (seen, prev, nxt) = (seen', prev', nxt')"
    and "set ps \<subseteq> U" and "S0 \<subseteq> set seen" and "set nxt \<subseteq> set seen \<inter> U - S0"
  shows "S0 \<subseteq> set seen' \<and> set nxt' \<subseteq> set seen' \<inter> U - S0"
  using assms
proof (induction ps arbitrary: seen prev nxt)
  case Nil
  then show ?case by simp
next
  case (Cons p ps)
  show ?case
  proof (cases "p \<in> set seen")
    case True
    with Cons.prems show ?thesis by (intro Cons.IH [of seen prev nxt]) simp_all
  next
    case False
    with Cons.prems show ?thesis
      by (intro Cons.IH [of "seen @ [p]" "AList.update p v prev" "nxt @ [p]"]) auto
  qed
qed

lemma pathToAncestor_layer_grows:
  assumes "pathToAncestor_layer fromId ancestorId parentsOf vs (seen, prev, nxt) = Inr (seen', prev', nxt')"
    and "S0 \<subseteq> set seen" and "set nxt \<subseteq> set seen \<inter> universe parentsOf - S0"
  shows "S0 \<subseteq> set seen' \<and> set nxt' \<subseteq> set seen' \<inter> universe parentsOf - S0"
  using assms
proof (induction vs arbitrary: seen prev nxt)
  case Nil
  then show ?case by simp
next
  case (Cons v vs)
  from Cons.prems(1) have ne: "v \<noteq> ancestorId" by (auto split: if_splits)
  obtain seen1 prev1 nxt1 where
    step: "pathToAncestor_parents v (parents_of parentsOf v) (seen, prev, nxt) = (seen1, prev1, nxt1)"
    by (metis prod_cases3)
  from pathToAncestor_parents_grows [OF step parents_of_universe Cons.prems(2,3)]
  have "S0 \<subseteq> set seen1" "set nxt1 \<subseteq> set seen1 \<inter> universe parentsOf - S0" by simp_all
  moreover from Cons.prems(1) ne step
  have "pathToAncestor_layer fromId ancestorId parentsOf vs (seen1, prev1, nxt1) = Inr (seen', prev', nxt')"
    by simp
  ultimately show ?case by (intro Cons.IH) 
qed

function pathToAncestor_while ::
  "jsstring \<Rightarrow> jsstring \<Rightarrow> jsstring list obj \<Rightarrow> jsstring list \<Rightarrow> jsstring list \<Rightarrow> jsstring obj
     \<Rightarrow> jsstring list option" where
  "pathToAncestor_while fromId ancestorId parentsOf [] seen prev = Some [fromId]"
| "pathToAncestor_while fromId ancestorId parentsOf (v # vs) seen prev =
     (case pathToAncestor_layer fromId ancestorId parentsOf (v # vs) (seen, prev, []) of
        Inl r \<Rightarrow> r
      | Inr (seen', prev', nxt) \<Rightarrow>
          pathToAncestor_while fromId ancestorId parentsOf nxt seen' prev')"
  by pat_completeness auto
termination
proof (relation "measure (\<lambda>(fromId, ancestorId, parentsOf, layer, seen, prev).
         card (universe parentsOf - set seen) + (if layer = [] then 0 else 1))", goal_cases)
  case 1
  show ?case by simp
next
  case (2 fromId ancestorId parentsOf v vs seen prev st seen' y prev' nxt)
  then have run: "pathToAncestor_layer fromId ancestorId parentsOf (v # vs) (seen, prev, [])
      = Inr (seen', prev', nxt)" by simp
  from pathToAncestor_layer_grows [OF run, of "set seen"]
  have sub: "set seen \<subseteq> set seen'" and nxt: "set nxt \<subseteq> set seen' \<inter> universe parentsOf - set seen"
    by simp_all
  have fin: "finite (universe parentsOf - set seen)" by (simp add: universe_def)
  show ?case
  proof (cases "nxt = []")
    case True
    from sub have "universe parentsOf - set seen' \<subseteq> universe parentsOf - set seen" by auto
    with fin have "card (universe parentsOf - set seen') \<le> card (universe parentsOf - set seen)"
      by (rule card_mono)
    with True show ?thesis by simp
  next
    case False
    then obtain p where "p \<in> set nxt" by (cases nxt) auto
    with nxt have "p \<in> universe parentsOf - set seen" "p \<notin> universe parentsOf - set seen'" by auto
    with sub have "universe parentsOf - set seen' \<subset> universe parentsOf - set seen" by auto
    with fin have "card (universe parentsOf - set seen') < card (universe parentsOf - set seen)"
      by (rule psubset_card_mono)
    with False show ?thesis by simp
  qed
qed

definition pathToAncestor :: "jsstring \<Rightarrow> jsstring \<Rightarrow> jsstring list obj \<Rightarrow> jsstring list option" where
  "pathToAncestor fromId ancestorId parentsOf =
     pathToAncestor_while fromId ancestorId parentsOf [fromId] [fromId] []"

definition describeLine :: "person obj \<Rightarrow> jsstring list \<Rightarrow> jsstring" where
  "describeLine byId path =
     (if length path < 2 then []
      else case map_of byId (path ! 1) of
             None \<Rightarrow> []
           | Some firstParent \<Rightarrow>
               if sex firstParent = ascii ''female'' then ([cy_p, cy_o] @ ascii '' '' @ [cy_m, cy_a, cy_t, cy_e, cy_r, cy_i, cy_n, cy_s, cy_k, cy_o, cy_j] @ ascii '' '' @ [cy_l, cy_i, cy_n, cy_i, cy_i])
               else if sex firstParent = ascii ''male'' then ([cy_p, cy_o] @ ascii '' '' @ [cy_o, cy_t, cy_c, cy_o, cy_v, cy_s, cy_k, cy_o, cy_j] @ ascii '' '' @ [cy_l, cy_i, cy_n, cy_i, cy_i])
               else [])"

subsection \<open>Labels\<close>

text \<open>
  \<open>describeAncestor\<close> and \<open>describeDescendant\<close> are the two closures of
  \<open>relationLabel\<close>.  \<open>with_line t line\<close> is \<open>line ? `${t} (${line})` : t\<close>.
  \<open>Array.prototype.join\<close> prints an undefined element as the empty string
  (\<open>name_in_join\<close>), a template literal prints it as \<open>undefined\<close> (\<open>name_in_template\<close>).
\<close>

definition describeAncestor :: "int \<Rightarrow> jsstring \<Rightarrow> jsstring" where
  "describeAncestor d sx =
     (if d = 1 then sexNoun sx [cy_o, cy_t, cy_e, cy_c] [cy_m, cy_a, cy_t, cy_soft] [cy_r, cy_o, cy_d, cy_i, cy_t, cy_e, cy_l, cy_soft]
      else if d = 2 then sexNoun sx [cy_d, cy_e, cy_d] [cy_b, cy_a, cy_b, cy_u, cy_sh, cy_k, cy_a] [cy_p, cy_r, cy_e, cy_d, cy_o, cy_k]
      else if d = 3 then sexNoun sx [cy_p, cy_r, cy_a, cy_d, cy_e, cy_d] [cy_p, cy_r, cy_a, cy_b, cy_a, cy_b, cy_u, cy_sh, cy_k, cy_a] ([cy_p, cy_r, cy_e, cy_d, cy_o, cy_k] @ ascii '' '' @ [cy_v] @ ascii '' 3-'' @ [cy_m] @ ascii '' '' @ [cy_k, cy_o, cy_l, cy_e, cy_n, cy_e])
      else ([cy_p, cy_r, cy_e, cy_d, cy_o, cy_k] @ ascii '' '' @ [cy_v] @ ascii '' '') @ show_int d @ (ascii ''-'' @ [cy_m] @ ascii '' '' @ [cy_k, cy_o, cy_l, cy_e, cy_n, cy_e]))"

definition describeDescendant :: "int \<Rightarrow> jsstring \<Rightarrow> jsstring" where
  "describeDescendant d sx =
     (if d = 1 then sexNoun sx [cy_s, cy_y, cy_n] [cy_d, cy_o, cy_ch, cy_soft] [cy_r, cy_e, cy_b, cy_yo, cy_n, cy_o, cy_k]
      else if d = 2 then sexNoun sx [cy_v, cy_n, cy_u, cy_k] [cy_v, cy_n, cy_u, cy_ch, cy_k, cy_a] [cy_p, cy_o, cy_t, cy_o, cy_m, cy_o, cy_k]
      else if d = 3 then sexNoun sx [cy_p, cy_r, cy_a, cy_v, cy_n, cy_u, cy_k] [cy_p, cy_r, cy_a, cy_v, cy_n, cy_u, cy_ch, cy_k, cy_a] ([cy_p, cy_o, cy_t, cy_o, cy_m, cy_o, cy_k] @ ascii '' '' @ [cy_v] @ ascii '' 3-'' @ [cy_m] @ ascii '' '' @ [cy_k, cy_o, cy_l, cy_e, cy_n, cy_e])
      else ([cy_p, cy_o, cy_t, cy_o, cy_m, cy_o, cy_k] @ ascii '' '' @ [cy_v] @ ascii '' '') @ show_int d @ (ascii ''-'' @ [cy_m] @ ascii '' '' @ [cy_k, cy_o, cy_l, cy_e, cy_n, cy_e]))"

definition with_line :: "jsstring \<Rightarrow> jsstring \<Rightarrow> jsstring" where
  "with_line t line = (if line \<noteq> [] then t @ ascii '' ('' @ line @ ascii '')'' else t)"

fun join :: "jsstring \<Rightarrow> jsstring list \<Rightarrow> jsstring" where
  "join sep [] = []"
| "join sep [x] = x"
| "join sep (x # y # ys) = x @ sep @ join sep (y # ys)"

definition name_in_join :: "person obj \<Rightarrow> jsstring \<Rightarrow> jsstring" where
  "name_in_join byId i = (case map_of byId i of None \<Rightarrow> [] | Some p \<Rightarrow> name p)"

definition name_in_template :: "person option \<Rightarrow> jsstring" where
  "name_in_template p = (case p of None \<Rightarrow> ascii ''undefined'' | Some q \<Rightarrow> name q)"

record relation =
  title :: jsstring
  details :: "jsstring list"
  reverseTitle :: jsstring

definition common_path :: "person obj \<Rightarrow> jsstring list \<Rightarrow> jsstring" where
  "common_path byId path =
     ([Cy_o, cy_b, cy_sch, cy_i, cy_j] @ ascii '' '' @ [cy_p, cy_u, cy_t, cy_soft] @ ascii '': '') @ join (ascii '' '' @ [right_arrow] @ ascii '' '') (map (name_in_join byId) path)"

text \<open>
  The part of \<open>relationLabel\<close> after the common ancestor \<open>anc\<close> with the distances
  \<open>k\<close> (from \<open>fromId\<close>) and \<open>l\<close> (from \<open>toId\<close>) has been found.
\<close>

definition relationLabel_lca ::
  "person \<Rightarrow> person \<Rightarrow> person obj \<Rightarrow> jsstring list obj \<Rightarrow> person list \<Rightarrow> jsstring \<Rightarrow> jsstring
     \<Rightarrow> jsstring \<Rightarrow> int \<Rightarrow> int \<Rightarrow> relation option" where
  "relationLabel_lca A B byId parentsOf people fromId toId anc k l =
     (if k = 1 \<and> l = 1 then
        (case pathToAncestor fromId anc parentsOf of
           None \<Rightarrow> None
         | Some pathA \<Rightarrow>
             (case pathToAncestor toId anc parentsOf of
                None \<Rightarrow> None
              | Some pathB \<Rightarrow>
                  let lineA = describeLine byId pathA;
                      lineB = describeLine byId pathB
                  in Some \<lparr>title = sexNoun (sex B) [cy_b, cy_r, cy_a, cy_t] [cy_s, cy_e, cy_s, cy_t, cy_r, cy_a] [cy_s, cy_i, cy_b, cy_l, cy_i, cy_n, cy_g],
                           details =
                             [([Cy_o, cy_b, cy_sch, cy_i, cy_j] @ ascii '' '' @ [cy_p, cy_r, cy_e, cy_d, cy_o, cy_k] @ ascii '': '') @ name_in_template (map_of byId anc),
                              ([Cy_l, cy_i, cy_n, cy_i, cy_i] @ ascii '': '') @ (if lineA \<noteq> [] then lineA else [em_dash]) @ ascii '' / ''
                                @ (if lineB \<noteq> [] then lineB else [em_dash])],
                           reverseTitle = sexNoun (sex A) [cy_b, cy_r, cy_a, cy_t] [cy_s, cy_e, cy_s, cy_t, cy_r, cy_a] [cy_s, cy_i, cy_b, cy_l, cy_i, cy_n, cy_g]\<rparr>))
      else if min k l = 1 then
        (let olderIsA = (k = 1);
             degree = max k l - 1;
             det = [([Cy_o, cy_b, cy_sch, cy_i, cy_j] @ ascii '' '' @ [cy_p, cy_r, cy_e, cy_d, cy_o, cy_k] @ ascii '': '') @ name_in_template (map_of byId anc)]
         in if degree = 1 then
              (if olderIsA
               then Some \<lparr>title = sexNoun (sex A) [cy_d, cy_ya, cy_d, cy_ya] [cy_t, cy_yo, cy_t, cy_ya] ([cy_t, cy_yo, cy_t, cy_ya] @ ascii ''/'' @ [cy_d, cy_ya, cy_d, cy_ya]),
                          details = det,
                          reverseTitle = sexNoun (sex B) [cy_p, cy_l, cy_e, cy_m, cy_ya, cy_n, cy_n, cy_i, cy_k] [cy_p, cy_l, cy_e, cy_m, cy_ya, cy_n, cy_n, cy_i, cy_c, cy_a] ([cy_p, cy_l, cy_e, cy_m, cy_ya, cy_n, cy_n, cy_i, cy_k] @ ascii ''/'' @ [cy_p, cy_l, cy_e, cy_m, cy_ya, cy_n, cy_n, cy_i, cy_c, cy_a])\<rparr>
               else Some \<lparr>title = sexNoun (sex A) [cy_p, cy_l, cy_e, cy_m, cy_ya, cy_n, cy_n, cy_i, cy_k] [cy_p, cy_l, cy_e, cy_m, cy_ya, cy_n, cy_n, cy_i, cy_c, cy_a] ([cy_p, cy_l, cy_e, cy_m, cy_ya, cy_n, cy_n, cy_i, cy_k] @ ascii ''/'' @ [cy_p, cy_l, cy_e, cy_m, cy_ya, cy_n, cy_n, cy_i, cy_c, cy_a]),
                          details = det,
                          reverseTitle = sexNoun (sex B) [cy_d, cy_ya, cy_d, cy_ya] [cy_t, cy_yo, cy_t, cy_ya] ([cy_t, cy_yo, cy_t, cy_ya] @ ascii ''/'' @ [cy_d, cy_ya, cy_d, cy_ya])\<rparr>)
            else
              (if olderIsA
               then Some \<lparr>title =
                            (if degree = 2 then sexNoun (sex A) ([cy_d, cy_v, cy_o, cy_yu, cy_r, cy_o, cy_d, cy_n, cy_y, cy_j] @ ascii '' '' @ [cy_d, cy_e, cy_d]) ([cy_d, cy_v, cy_o, cy_yu, cy_r, cy_o, cy_d, cy_n, cy_a, cy_ya] @ ascii '' '' @ [cy_b, cy_a, cy_b, cy_u, cy_sh, cy_k, cy_a]) ([cy_d, cy_v, cy_o, cy_yu, cy_r, cy_o, cy_d, cy_n, cy_y, cy_j] @ ascii '' '' @ [cy_p, cy_r, cy_e, cy_d, cy_o, cy_k])
                             else if degree = 3 then sexNoun (sex A) ([cy_t, cy_r, cy_o, cy_yu, cy_r, cy_o, cy_d, cy_n, cy_y, cy_j] @ ascii '' '' @ [cy_d, cy_e, cy_d]) ([cy_t, cy_r, cy_o, cy_yu, cy_r, cy_o, cy_d, cy_n, cy_a, cy_ya] @ ascii '' '' @ [cy_b, cy_a, cy_b, cy_u, cy_sh, cy_k, cy_a]) ([cy_t, cy_r, cy_o, cy_yu, cy_r, cy_o, cy_d, cy_n, cy_y, cy_j] @ ascii '' '' @ [cy_p, cy_r, cy_e, cy_d, cy_o, cy_k])
                             else ([cy_p, cy_r, cy_e, cy_d, cy_o, cy_k] @ ascii '' ('' @ [cy_u, cy_d, cy_a, cy_l, cy_e, cy_n, cy_i, cy_e] @ ascii '' '') @ show_int (degree - 1) @ ascii '')''),
                          details = det,
                          reverseTitle =
                            (if degree = 2 then sexNoun (sex B) ([cy_d, cy_v, cy_o, cy_yu, cy_r, cy_o, cy_d, cy_n, cy_y, cy_j] @ ascii '' '' @ [cy_v, cy_n, cy_u, cy_k]) ([cy_d, cy_v, cy_o, cy_yu, cy_r, cy_o, cy_d, cy_n, cy_a, cy_ya] @ ascii '' '' @ [cy_v, cy_n, cy_u, cy_ch, cy_k, cy_a]) ([cy_d, cy_v, cy_o, cy_yu, cy_r, cy_o, cy_d, cy_n, cy_y, cy_j] @ ascii '' '' @ [cy_p, cy_o, cy_t, cy_o, cy_m, cy_o, cy_k])
                             else if degree = 3 then sexNoun (sex B) ([cy_t, cy_r, cy_o, cy_yu, cy_r, cy_o, cy_d, cy_n, cy_y, cy_j] @ ascii '' '' @ [cy_v, cy_n, cy_u, cy_k]) ([cy_t, cy_r, cy_o, cy_yu, cy_r, cy_o, cy_d, cy_n, cy_a, cy_ya] @ ascii '' '' @ [cy_v, cy_n, cy_u, cy_ch, cy_k, cy_a]) ([cy_t, cy_r, cy_o, cy_yu, cy_r, cy_o, cy_d, cy_n, cy_y, cy_j] @ ascii '' '' @ [cy_p, cy_o, cy_t, cy_o, cy_m, cy_o, cy_k])
                             else ([cy_p, cy_o, cy_t, cy_o, cy_m, cy_o, cy_k] @ ascii '' ('' @ [cy_u, cy_d, cy_a, cy_l, cy_e, cy_n, cy_i, cy_e] @ ascii '' '') @ show_int (degree - 1) @ ascii '')'')\<rparr>
               else Some \<lparr>title =
                            (if degree = 2 then sexNoun (sex A) ([cy_d, cy_v, cy_o, cy_yu, cy_r, cy_o, cy_d, cy_n, cy_y, cy_j] @ ascii '' '' @ [cy_v, cy_n, cy_u, cy_k]) ([cy_d, cy_v, cy_o, cy_yu, cy_r, cy_o, cy_d, cy_n, cy_a, cy_ya] @ ascii '' '' @ [cy_v, cy_n, cy_u, cy_ch, cy_k, cy_a]) ([cy_d, cy_v, cy_o, cy_yu, cy_r, cy_o, cy_d, cy_n, cy_y, cy_j] @ ascii '' '' @ [cy_p, cy_o, cy_t, cy_o, cy_m, cy_o, cy_k])
                             else if degree = 3 then sexNoun (sex A) ([cy_t, cy_r, cy_o, cy_yu, cy_r, cy_o, cy_d, cy_n, cy_y, cy_j] @ ascii '' '' @ [cy_v, cy_n, cy_u, cy_k]) ([cy_t, cy_r, cy_o, cy_yu, cy_r, cy_o, cy_d, cy_n, cy_a, cy_ya] @ ascii '' '' @ [cy_v, cy_n, cy_u, cy_ch, cy_k, cy_a]) ([cy_t, cy_r, cy_o, cy_yu, cy_r, cy_o, cy_d, cy_n, cy_y, cy_j] @ ascii '' '' @ [cy_p, cy_o, cy_t, cy_o, cy_m, cy_o, cy_k])
                             else ([cy_p, cy_o, cy_t, cy_o, cy_m, cy_o, cy_k] @ ascii '' ('' @ [cy_u, cy_d, cy_a, cy_l, cy_e, cy_n, cy_i, cy_e] @ ascii '' '') @ show_int (degree - 1) @ ascii '')''),
                          details = det,
                          reverseTitle =
                            (if degree = 2 then sexNoun (sex B) ([cy_d, cy_v, cy_o, cy_yu, cy_r, cy_o, cy_d, cy_n, cy_y, cy_j] @ ascii '' '' @ [cy_d, cy_e, cy_d]) ([cy_d, cy_v, cy_o, cy_yu, cy_r, cy_o, cy_d, cy_n, cy_a, cy_ya] @ ascii '' '' @ [cy_b, cy_a, cy_b, cy_u, cy_sh, cy_k, cy_a]) ([cy_d, cy_v, cy_o, cy_yu, cy_r, cy_o, cy_d, cy_n, cy_y, cy_j] @ ascii '' '' @ [cy_p, cy_r, cy_e, cy_d, cy_o, cy_k])
                             else if degree = 3 then sexNoun (sex B) ([cy_t, cy_r, cy_o, cy_yu, cy_r, cy_o, cy_d, cy_n, cy_y, cy_j] @ ascii '' '' @ [cy_d, cy_e, cy_d]) ([cy_t, cy_r, cy_o, cy_yu, cy_r, cy_o, cy_d, cy_n, cy_a, cy_ya] @ ascii '' '' @ [cy_b, cy_a, cy_b, cy_u, cy_sh, cy_k, cy_a]) ([cy_t, cy_r, cy_o, cy_yu, cy_r, cy_o, cy_d, cy_n, cy_y, cy_j] @ ascii '' '' @ [cy_p, cy_r, cy_e, cy_d, cy_o, cy_k])
                             else ([cy_p, cy_r, cy_e, cy_d, cy_o, cy_k] @ ascii '' ('' @ [cy_u, cy_d, cy_a, cy_l, cy_e, cy_n, cy_i, cy_e] @ ascii '' '') @ show_int (degree - 1) @ ascii '')'')\<rparr>))
      else
        (let degree = min k l - 1;
             removal = \<bar>k - l\<bar>;
             base = cousinDegreeWord degree;
             det = [([Cy_o, cy_b, cy_sch, cy_i, cy_j] @ ascii '' '' @ [cy_p, cy_r, cy_e, cy_d, cy_o, cy_k] @ ascii '': '') @ name_in_template (List.find (\<lambda>p. pid p = anc) people)]
         in if removal = 0 then
              Some \<lparr>title =
                      (if base \<noteq> []
                       then sexNoun (sex B) (base @ ([cy_y, cy_j] @ ascii '' '' @ [cy_b, cy_r, cy_a, cy_t])) (base @ ([cy_a, cy_ya] @ ascii '' '' @ [cy_s, cy_e, cy_s, cy_t, cy_r, cy_a])) (base @ ([cy_y, cy_e] @ ascii '' '' @ [cy_r, cy_o, cy_d, cy_s, cy_t, cy_v, cy_e, cy_n, cy_n, cy_i, cy_k, cy_i]))
                       else [cy_r, cy_o, cy_d, cy_s, cy_t, cy_v, cy_e, cy_n, cy_n, cy_i, cy_k, cy_i]),
                    details = det,
                    reverseTitle =
                      (if base \<noteq> []
                       then sexNoun (sex A) (base @ ([cy_y, cy_j] @ ascii '' '' @ [cy_b, cy_r, cy_a, cy_t])) (base @ ([cy_a, cy_ya] @ ascii '' '' @ [cy_s, cy_e, cy_s, cy_t, cy_r, cy_a])) (base @ ([cy_y, cy_e] @ ascii '' '' @ [cy_r, cy_o, cy_d, cy_s, cy_t, cy_v, cy_e, cy_n, cy_n, cy_i, cy_k, cy_i]))
                       else [cy_r, cy_o, cy_d, cy_s, cy_t, cy_v, cy_e, cy_n, cy_n, cy_i, cy_k, cy_i])\<rparr>
            else if removal = 1 then
              (let olderIsA = (k < l);
                   labelOlder = base @ ([cy_y, cy_j] @ ascii '' '')
                     @ sexNoun (if olderIsA then sex A else sex B) [cy_d, cy_ya, cy_d, cy_ya] [cy_t, cy_yo, cy_t, cy_ya] ([cy_d, cy_ya, cy_d, cy_ya] @ ascii ''/'' @ [cy_t, cy_yo, cy_t, cy_ya]);
                   labelYounger = base @ ([cy_a, cy_ya] @ ascii '' '')
                     @ sexNoun (if olderIsA then sex B else sex A) [cy_p, cy_l, cy_e, cy_m, cy_ya, cy_n, cy_n, cy_i, cy_k] [cy_p, cy_l, cy_e, cy_m, cy_ya, cy_n, cy_n, cy_i, cy_c, cy_a] ([cy_p, cy_l, cy_e, cy_m, cy_ya, cy_n, cy_n, cy_i, cy_k] @ ascii ''/'' @ [cy_p, cy_l, cy_e, cy_m, cy_ya, cy_n, cy_n, cy_i, cy_c, cy_a])
               in if olderIsA
                  then Some \<lparr>title = labelOlder, details = det, reverseTitle = labelYounger\<rparr>
                  else Some \<lparr>title = labelYounger, details = det, reverseTitle = labelOlder\<rparr>)
            else
              (let olderIsA = (k < l)
               in Some \<lparr>title =
                           (if olderIsA
                            then base @ ([cy_y, cy_j] @ ascii '' '') @ sexNoun (sex A) [cy_d, cy_ya, cy_d, cy_ya] [cy_t, cy_yo, cy_t, cy_ya] ([cy_d, cy_ya, cy_d, cy_ya] @ ascii ''/'' @ [cy_t, cy_yo, cy_t, cy_ya])
                                   @ (ascii '' ('' @ [cy_u, cy_d, cy_a, cy_l, cy_e, cy_n, cy_i, cy_e] @ ascii '' '') @ show_int removal @ ascii '')''
                            else base @ ([cy_a, cy_ya] @ ascii '' '') @ sexNoun (sex A) [cy_p, cy_l, cy_e, cy_m, cy_ya, cy_n, cy_n, cy_i, cy_k] [cy_p, cy_l, cy_e, cy_m, cy_ya, cy_n, cy_n, cy_i, cy_c, cy_a] ([cy_p, cy_l, cy_e, cy_m, cy_ya, cy_n, cy_n, cy_i, cy_k] @ ascii ''/'' @ [cy_p, cy_l, cy_e, cy_m, cy_ya, cy_n, cy_n, cy_i, cy_c, cy_a])
                                   @ (ascii '' ('' @ [cy_u, cy_d, cy_a, cy_l, cy_e, cy_n, cy_i, cy_e] @ ascii '' '') @ show_int removal @ ascii '')''),
                         details = det,
                         reverseTitle =
                           (if olderIsA
                            then base @ ([cy_a, cy_ya] @ ascii '' '') @ sexNoun (sex B) [cy_p, cy_l, cy_e, cy_m, cy_ya, cy_n, cy_n, cy_i, cy_k] [cy_p, cy_l, cy_e, cy_m, cy_ya, cy_n, cy_n, cy_i, cy_c, cy_a] ([cy_p, cy_l, cy_e, cy_m, cy_ya, cy_n, cy_n, cy_i, cy_k] @ ascii ''/'' @ [cy_p, cy_l, cy_e, cy_m, cy_ya, cy_n, cy_n, cy_i, cy_c, cy_a])
                                   @ (ascii '' ('' @ [cy_u, cy_d, cy_a, cy_l, cy_e, cy_n, cy_i, cy_e] @ ascii '' '') @ show_int removal @ ascii '')''
                            else base @ ([cy_y, cy_j] @ ascii '' '') @ sexNoun (sex B) [cy_d, cy_ya, cy_d, cy_ya] [cy_t, cy_yo, cy_t, cy_ya] ([cy_d, cy_ya, cy_d, cy_ya] @ ascii ''/'' @ [cy_t, cy_yo, cy_t, cy_ya])
                                   @ (ascii '' ('' @ [cy_u, cy_d, cy_a, cy_l, cy_e, cy_n, cy_i, cy_e] @ ascii '' '') @ show_int removal @ ascii '')'')\<rparr>)))"

definition relation_unknown :: relation where
  "relation_unknown = \<lparr>title = [em_dash], details = [], reverseTitle = [em_dash]\<rparr>"

definition relation_not_found :: relation where
  "relation_not_found =
     \<lparr>title = ([Cy_s, cy_v, cy_ya, cy_z, cy_soft] @ ascii '' '' @ [cy_n, cy_e] @ ascii '' '' @ [cy_n, cy_a, cy_j, cy_d, cy_e, cy_n, cy_a]), details = [], reverseTitle = ([Cy_s, cy_v, cy_ya, cy_z, cy_soft] @ ascii '' '' @ [cy_n, cy_e] @ ascii '' '' @ [cy_n, cy_a, cy_j, cy_d, cy_e, cy_n, cy_a])\<rparr>"

text \<open>
  \<open>relationLabel\<close>.  The result is \<open>None\<close> only if a path reconstruction does not
  return.  The guard \<open>!A || !B\<close> is the lookup of the two ids in \<open>byId\<close>, for plain
  ids.
\<close>

definition relationLabel ::
  "jsstring \<Rightarrow> jsstring \<Rightarrow> person list \<Rightarrow> edge list \<Rightarrow> relation option" where
  "relationLabel fromId toId people edges =
     (case buildIndexes people edges of
        (byId, parentsOf, childrenOf) \<Rightarrow>
          (case map_of byId fromId of
             None \<Rightarrow> Some relation_unknown
           | Some A \<Rightarrow>
               (case map_of byId toId of
                  None \<Rightarrow> Some relation_unknown
                | Some B \<Rightarrow>
                    let up = isAncestorOf fromId toId parentsOf;
                        down = isAncestorOf toId fromId parentsOf
                    in if 1 \<le> up then
                         (case pathToAncestor toId fromId parentsOf of
                            None \<Rightarrow> None
                          | Some path \<Rightarrow>
                              let line = describeLine byId path
                              in Some \<lparr>title = with_line (describeAncestor up (sex A)) line,
                                       details = [common_path byId path],
                                       reverseTitle = with_line (describeDescendant up (sex B)) line\<rparr>)
                       else if 1 \<le> down then
                         (case pathToAncestor fromId toId parentsOf of
                            None \<Rightarrow> None
                          | Some path \<Rightarrow>
                              let line = describeLine byId path
                              in Some \<lparr>title = with_line (describeDescendant down (sex A)) line,
                                       details = [common_path byId path],
                                       reverseTitle = with_line (describeAncestor down (sex B)) line\<rparr>)
                       else
                         (case findLCA fromId toId parentsOf of
                            None \<Rightarrow> Some relation_not_found
                          | Some (anc, k, l) \<Rightarrow>
                              relationLabel_lca A B byId parentsOf people fromId toId anc
                                (int k) (int l)))))"


section \<open>Correctness of the ancestor search\<close>

text \<open>
  \<open>parent_rel\<close> is the parent relation of an index: \<open>(c, p)\<close> when \<open>p\<close> is listed among
  the parents of \<open>c\<close>.  \<open>hops parentsOf s n v\<close> says that \<open>v\<close> is reached from \<open>s\<close> by
  a path of exactly \<open>n\<close> parent hops, and \<open>min_hops\<close> that \<open>n\<close> is the least such
  number.
\<close>

definition parent_rel :: "jsstring list obj \<Rightarrow> (jsstring \<times> jsstring) set" where
  "parent_rel parentsOf = {(c, p). p \<in> set (parents_of parentsOf c)}"

definition hops :: "jsstring list obj \<Rightarrow> jsstring \<Rightarrow> nat \<Rightarrow> jsstring \<Rightarrow> bool" where
  "hops parentsOf s n v = ((s, v) \<in> parent_rel parentsOf ^^ n)"

definition min_hops :: "jsstring list obj \<Rightarrow> jsstring \<Rightarrow> jsstring \<Rightarrow> nat \<Rightarrow> bool" where
  "min_hops parentsOf s v d = (hops parentsOf s d v \<and> (\<forall>m<d. \<not> hops parentsOf s m v))"

lemma hops_0 [simp]: "hops po s 0 v \<longleftrightarrow> v = s"
  by (auto simp: hops_def)

lemma hops_Suc: "hops po s (Suc n) v \<longleftrightarrow> (\<exists>u. hops po s n u \<and> v \<in> set (parents_of po u))"
  by (auto simp: hops_def parent_rel_def)

text \<open>
  The invariant of the \<open>while\<close> loop (\<open>while_inv\<close>) and of the inner \<open>for\<close> loop
  (\<open>for_inv\<close>): every queue entry and every recorded depth is a least hop count, the
  queue is sorted by depth and spans at most two consecutive levels, every seen node is
  still queued or has all its parents seen, and every node within the level of the head
  of the queue is seen.
\<close>

definition walk_common ::
  "jsstring list obj \<Rightarrow> jsstring \<Rightarrow> nat obj \<Rightarrow> jsstring list \<Rightarrow> (jsstring \<times> nat) list \<Rightarrow> bool" where
  "walk_common po s depths seen queue =
     ((\<forall>(v, d) \<in> set queue. min_hops po s v d) \<and>
      (\<forall>v d. map_of depths v = Some d \<longrightarrow> min_hops po s v d \<and> 0 < d) \<and>
      set seen = insert s (fst ` set depths) \<and>
      sorted (map snd queue) \<and>
      fst ` set queue \<subseteq> set seen)"

definition while_inv ::
  "jsstring list obj \<Rightarrow> jsstring \<Rightarrow> nat obj \<Rightarrow> jsstring list \<Rightarrow> (jsstring \<times> nat) list \<Rightarrow> bool" where
  "while_inv po s depths seen queue =
     (walk_common po s depths seen queue \<and>
      (\<forall>(v, d) \<in> set queue. \<forall>(v', d') \<in> set queue. d' \<le> d + 1) \<and>
      (\<forall>v \<in> set seen. v \<in> fst ` set queue \<or> set (parents_of po v) \<subseteq> set seen) \<and>
      (\<forall>cur d rest. queue = (cur, d) # rest \<longrightarrow>
          (\<forall>u m. hops po s m u \<and> m \<le> d \<longrightarrow> u \<in> set seen)))"

definition for_inv ::
  "jsstring list obj \<Rightarrow> jsstring \<Rightarrow> jsstring \<Rightarrow> nat \<Rightarrow> nat obj \<Rightarrow> jsstring list
     \<Rightarrow> (jsstring \<times> nat) list \<Rightarrow> bool" where
  "for_inv po s cur d depths seen queue =
     (walk_common po s depths seen queue \<and>
      (\<forall>(v, d') \<in> set queue. d \<le> d' \<and> d' \<le> d + 1) \<and>
      (\<forall>v \<in> set seen. v = cur \<or> v \<in> fst ` set queue \<or> set (parents_of po v) \<subseteq> set seen) \<and>
      (\<forall>u m. hops po s m u \<and> m \<le> d \<longrightarrow> u \<in> set seen) \<and>
      min_hops po s cur d \<and> cur \<in> set seen)"

lemma while_inv_init: "while_inv po s [] [s] [(s, 0)]"
  by (simp add: while_inv_def walk_common_def min_hops_def)

lemma while_to_for:
  assumes "while_inv po s depths seen ((cur, d) # rest)"
  shows "for_inv po s cur d depths seen rest"
proof -
  from assms have c: "walk_common po s depths seen ((cur, d) # rest)"
    and near: "\<forall>(v', d') \<in> set ((cur, d) # rest). d' \<le> d + 1"
    and e: "\<forall>v \<in> set seen. v \<in> fst ` set ((cur, d) # rest) \<or> set (parents_of po v) \<subseteq> set seen"
    and g: "\<forall>u m. hops po s m u \<and> m \<le> d \<longrightarrow> u \<in> set seen"
    by (auto simp: while_inv_def)
  from c have "walk_common po s depths seen rest"
    by (auto simp: walk_common_def)
  moreover from c near have "\<forall>(v, d') \<in> set rest. d \<le> d' \<and> d' \<le> d + 1"
    by (auto simp: walk_common_def)
  moreover from e have "\<forall>v \<in> set seen. v = cur \<or> v \<in> fst ` set rest \<or> set (parents_of po v) \<subseteq> set seen"
    by auto
  moreover from c have "min_hops po s cur d" "cur \<in> set seen"
    by (auto simp: walk_common_def)
  ultimately show ?thesis using g by (simp add: for_inv_def)
qed

lemma for_inv_skip_depth:
  assumes "for_inv po s cur d depths seen queue" and "p \<notin> set seen"
  shows "map_of depths p = None"
proof -
  from assms have "p \<notin> fst ` set depths" by (auto simp: for_inv_def walk_common_def)
  then show ?thesis by (simp add: map_of_eq_None_iff)
qed

lemma for_inv_step:
  assumes inv: "for_inv po s cur d depths seen queue"
    and p: "p \<in> set (parents_of po cur)" and new: "p \<notin> set seen"
  shows "for_inv po s cur d (AList.update p (d + 1) depths) (seen @ [p]) (queue @ [(p, d + 1)])"
proof -
  from inv have c: "walk_common po s depths seen queue"
    and range: "\<forall>(v, d') \<in> set queue. d \<le> d' \<and> d' \<le> d + 1"
    and e: "\<forall>v \<in> set seen. v = cur \<or> v \<in> fst ` set queue \<or> set (parents_of po v) \<subseteq> set seen"
    and g: "\<forall>u m. hops po s m u \<and> m \<le> d \<longrightarrow> u \<in> set seen"
    and cur: "min_hops po s cur d" "cur \<in> set seen"
    by (auto simp: for_inv_def)
  have "hops po s (Suc d) p"
    using cur(1) p by (auto simp: hops_Suc min_hops_def)
  moreover have "\<not> hops po s m p" if "m < Suc d" for m
  proof
    assume "hops po s m p"
    moreover from that have "m \<le> d" by simp
    ultimately have "p \<in> set seen" using g by blast
    with new show False by simp
  qed
  ultimately have mp: "min_hops po s p (d + 1)"
    by (simp add: min_hops_def)
  have c1: "\<forall>(v, d') \<in> set (queue @ [(p, d + 1)]). min_hops po s v d'"
    using c mp by (auto simp: walk_common_def)
  have c2: "\<forall>v x. map_of (AList.update p (d + 1) depths) v = Some x \<longrightarrow> min_hops po s v x \<and> 0 < x"
    using c mp by (auto simp: walk_common_def update_conv')
  have c3: "set (seen @ [p]) = insert s (fst ` set (AList.update p (d + 1) depths))"
    using c by (auto simp: walk_common_def dom_update)
  have c4: "sorted (map snd (queue @ [(p, d + 1)]))"
    using c range by (auto simp: walk_common_def sorted_append)
  have c5: "fst ` set (queue @ [(p, d + 1)]) \<subseteq> set (seen @ [p])"
    using c by (auto simp: walk_common_def)
  have common: "walk_common po s (AList.update p (d + 1) depths) (seen @ [p]) (queue @ [(p, d + 1)])"
    unfolding walk_common_def using c1 c2 c3 c4 c5 by blast
  have r: "\<forall>(v, d') \<in> set (queue @ [(p, d + 1)]). d \<le> d' \<and> d' \<le> d + 1"
    using range by auto
  have e': "\<forall>v \<in> set (seen @ [p]). v = cur \<or> v \<in> fst ` set (queue @ [(p, d + 1)])
      \<or> set (parents_of po v) \<subseteq> set (seen @ [p])"
    using e by force
  have g': "\<forall>u m. hops po s m u \<and> m \<le> d \<longrightarrow> u \<in> set (seen @ [p])"
    using g by auto
  show ?thesis
    unfolding for_inv_def using common r e' g' cur by simp
qed

lemma for_loop:
  assumes "for_inv po s cur d depths seen queue"
    and "set ps \<subseteq> set (parents_of po cur)"
    and "getAncestors_for d ps (depths, seen, queue) = (depths', seen', queue')"
  shows "for_inv po s cur d depths' seen' queue' \<and> set ps \<subseteq> set seen' \<and> set seen \<subseteq> set seen'"
  using assms
proof (induction ps arbitrary: depths seen queue)
  case Nil
  then show ?case by simp
next
  case (Cons p ps)
  show ?case
  proof (cases "p \<in> set seen")
    case True
    with Cons.prems have "getAncestors_for d ps (depths, seen, queue) = (depths', seen', queue')"
      by simp
    from Cons.IH [OF Cons.prems(1) _ this] Cons.prems(2) True
    show ?thesis by auto
  next
    case False
    from for_inv_skip_depth [OF Cons.prems(1) False] False Cons.prems(3)
    have run: "getAncestors_for d ps
        (AList.update p (d + 1) depths, seen @ [p], queue @ [(p, d + 1)]) = (depths', seen', queue')"
      by simp
    from Cons.prems(2) have p: "p \<in> set (parents_of po cur)" by simp
    from Cons.IH [OF for_inv_step [OF Cons.prems(1) p False] _ run] Cons.prems(2)
    show ?thesis by auto
  qed
qed

lemma for_to_while:
  assumes inv: "for_inv po s cur d depths seen queue"
    and all_seen: "set (parents_of po cur) \<subseteq> set seen"
  shows "while_inv po s depths seen queue"
proof -
  from inv have c: "walk_common po s depths seen queue"
    and range: "\<forall>(v, d') \<in> set queue. d \<le> d' \<and> d' \<le> d + 1"
    and e: "\<forall>v \<in> set seen. v = cur \<or> v \<in> fst ` set queue \<or> set (parents_of po v) \<subseteq> set seen"
    and g: "\<forall>u m. hops po s m u \<and> m \<le> d \<longrightarrow> u \<in> set seen"
    by (auto simp: for_inv_def)
  have "d' \<le> d1 + 1" if "(v, d1) \<in> set queue" "(v', d') \<in> set queue" for v d1 v' d'
  proof -
    from range that have "d \<le> d1" "d' \<le> d + 1" by auto
    then show ?thesis by simp
  qed
  then have near: "\<forall>(v, d1) \<in> set queue. \<forall>(v', d') \<in> set queue. d' \<le> d1 + 1"
    by blast
  have closed: "\<forall>v \<in> set seen. v \<in> fst ` set queue \<or> set (parents_of po v) \<subseteq> set seen"
  proof
    fix v assume "v \<in> set seen"
    with e have "v = cur \<or> v \<in> fst ` set queue \<or> set (parents_of po v) \<subseteq> set seen" ..
    with all_seen show "v \<in> fst ` set queue \<or> set (parents_of po v) \<subseteq> set seen" by auto
  qed
  have head: "u \<in> set seen"
    if q: "queue = (v, dv) # rest" and h: "hops po s m u" and le: "m \<le> dv" for v dv rest u m
  proof (cases "m \<le> d")
    case True
    with g h show ?thesis by blast
  next
    case False
    from q range have "dv \<le> d + 1" by auto
    with False le have m: "m = Suc d" and dv: "dv = Suc d" by auto
    from h m obtain w where w: "hops po s d w" "u \<in> set (parents_of po w)"
      by (auto simp: hops_Suc)
    from g w(1) have wseen: "w \<in> set seen" by blast
    have "w \<notin> fst ` set queue"
    proof
      assume "w \<in> fst ` set queue"
      then obtain dw where dw: "(w, dw) \<in> set queue" by auto
      with c have "min_hops po s w dw" by (auto simp: walk_common_def)
      with w(1) have "dw \<le> d" by (auto simp: min_hops_def intro: leI)
      moreover from c q dw dv have "Suc d \<le> dw" by (auto simp: walk_common_def)
      ultimately show False by simp
    qed
    with closed wseen have "set (parents_of po w) \<subseteq> set seen" by auto
    with w(2) show ?thesis by auto
  qed
  then have head': "\<forall>v dv rest. queue = (v, dv) # rest \<longrightarrow>
      (\<forall>u m. hops po s m u \<and> m \<le> dv \<longrightarrow> u \<in> set seen)"
    by (intro allI impI) (elim conjE)
  show ?thesis
    unfolding while_inv_def using c near closed head' by (intro conjI)
qed

lemma while_inv_closed:
  assumes "while_inv po s depths seen []" and "hops po s n u"
  shows "u \<in> set seen"
  using assms(2)
proof (induction n arbitrary: u)
  case 0
  with assms(1) show ?case by (auto simp: while_inv_def walk_common_def)
next
  case (Suc n)
  then obtain w where "hops po s n w" "u \<in> set (parents_of po w)" by (auto simp: hops_Suc)
  with Suc.IH assms(1) show ?case by (auto simp: while_inv_def)
qed

lemma while_loop:
  assumes "while_inv po s depths seen queue"
  shows "(\<forall>v d. map_of (getAncestors_while po depths seen queue) v = Some d
            \<longrightarrow> min_hops po s v d \<and> 0 < d)
       \<and> (\<forall>u n. hops po s n u \<longrightarrow> u = s \<or> u \<in> fst ` set (getAncestors_while po depths seen queue))"
  using assms
proof (induction po depths seen queue rule: getAncestors_while.induct)
  case (1 po depths seen)
  from 1 have "\<forall>u n. hops po s n u \<longrightarrow> u \<in> set seen"
    using while_inv_closed by blast
  with 1 show ?case by (auto simp: while_inv_def walk_common_def)
next
  case (2 po depths seen cur d queue)
  obtain depths' seen' queue' where
    run: "getAncestors_for d (parents_of po cur) (depths, seen, queue) = (depths', seen', queue')"
    by (metis prod_cases3)
  from for_loop [OF while_to_for [OF "2.prems"] subset_refl run]
  have "while_inv po s depths' seen' queue'" by (auto intro: for_to_while)
  with "2.IH" run show ?case by simp
qed

lemma getAncestors_min_hops:
  "(\<forall>v d. map_of (getAncestors s po) v = Some d \<longrightarrow> min_hops po s v d \<and> 0 < d)
   \<and> (\<forall>u n. hops po s n u \<longrightarrow> u = s \<or> u \<in> fst ` set (getAncestors s po))"
  unfolding getAncestors_def by (rule while_loop [OF while_inv_init])


text \<open>
  Claim C3.  On an acyclic parent relation over plain identifiers, and for a plain start
  id, \<open>getAncestors\<close> maps an id \<open>a\<close> to \<open>d\<close> exactly when \<open>d\<close> is the least positive
  number of parent hops from the start to \<open>a\<close>: every ancestor reachable by parent edges
  is recorded, with the minimum over all paths.
\<close>

theorem getAncestors_minimal:
  assumes acyc: "acyclic (parent_rel parentsOf)"
    and "plain_id start" and "plain_index parentsOf"
  shows "map_of (getAncestors start parentsOf) a = Some d \<longleftrightarrow>
     0 < d \<and> hops parentsOf start d a \<and> (\<forall>m. 0 < m \<and> hops parentsOf start m a \<longrightarrow> d \<le> m)"
proof
  assume "map_of (getAncestors start parentsOf) a = Some d"
  with getAncestors_min_hops [of start parentsOf] have "min_hops parentsOf start a d" "0 < d"
    by blast+
  then show "0 < d \<and> hops parentsOf start d a \<and> (\<forall>m. 0 < m \<and> hops parentsOf start m a \<longrightarrow> d \<le> m)"
    by (auto simp: min_hops_def intro: leI)
next
  assume r: "0 < d \<and> hops parentsOf start d a \<and> (\<forall>m. 0 < m \<and> hops parentsOf start m a \<longrightarrow> d \<le> m)"
  have "a \<noteq> start"
  proof
    assume "a = start"
    with r have "(start, start) \<in> parent_rel parentsOf ^^ d" "0 < d" by (simp_all add: hops_def)
    then have "(start, start) \<in> (parent_rel parentsOf)\<^sup>+" by (auto simp: trancl_power)
    with acyc show False by (simp add: acyclic_def)
  qed
  with r getAncestors_min_hops [of start parentsOf]
  have "a \<in> fst ` set (getAncestors start parentsOf)" by blast
  then obtain d' where d': "map_of (getAncestors start parentsOf) a = Some d'"
    by (metis map_of_eq_None_iff not_Some_eq)
  with getAncestors_min_hops [of start parentsOf] have "min_hops parentsOf start a d'" "0 < d'"
    by blast+
  with r have "d' \<le> d" "d \<le> d'" by (auto simp: min_hops_def intro: leI)
  with d' show "map_of (getAncestors start parentsOf) a = Some d" by simp
qed

text \<open>
  The diamond: \<open>A\<close> is a grandparent of \<open>D\<close> through \<open>B\<close> and a great-grandparent
  through \<open>C\<close> and \<open>E\<close>; the recorded distance is 2.
\<close>

definition ex_diamond :: "jsstring list obj" where
  "ex_diamond = [(ascii ''D'', [ascii ''B'', ascii ''C'']), (ascii ''B'', [ascii ''A'']),
     (ascii ''C'', [ascii ''E'']), (ascii ''E'', [ascii ''A''])]"

lemma ex_diamond_depths:
  "getAncestors (ascii ''D'') ex_diamond =
     [(ascii ''B'', 1), (ascii ''C'', 1), (ascii ''A'', 2), (ascii ''E'', 2)]"
  by (simp add: getAncestors_def ex_diamond_def parents_of_def)

lemma ex_diamond_acyclic: "acyclic (parent_rel ex_diamond)"
proof (rule acyclicI_order)
  fix a b assume "(a, b) \<in> parent_rel ex_diamond"
  then show "length (getAncestors b ex_diamond) < length (getAncestors a ex_diamond)"
    by (auto simp: parent_rel_def parents_of_def ex_diamond_def getAncestors_def split: if_splits)
qed

theorem getAncestors_minimal_witness:
  "acyclic (parent_rel ex_diamond) \<and> plain_id (ascii ''D'') \<and> plain_index ex_diamond \<and>
   map_of (getAncestors (ascii ''D'') ex_diamond) (ascii ''A'') = Some 2 \<and>
   hops ex_diamond (ascii ''D'') 2 (ascii ''A'')"
proof -
  have ev: "map_of (getAncestors (ascii ''D'') ex_diamond) (ascii ''A'') = Some 2"
    unfolding ex_diamond_depths by simp
  have pl: "plain_id (ascii ''D'')" "plain_index ex_diamond"
    by code_simp+
  from getAncestors_minimal [OF ex_diamond_acyclic pl, THEN iffD1, OF ev]
  have "hops ex_diamond (ascii ''D'') 2 (ascii ''A'')" by simp
  with ev ex_diamond_acyclic pl show ?thesis by simp
qed


section \<open>Correctness of the LCA resolver\<close>

definition pair_le :: "nat \<times> nat \<Rightarrow> nat \<times> nat \<Rightarrow> bool" where
  "pair_le x y = (fst x + snd x < fst y + snd y \<or>
     (fst x + snd x = fst y + snd y \<and> max (fst x) (snd x) \<le> max (fst y) (snd y)))"

definition lca_good :: "nat obj \<Rightarrow> nat obj \<Rightarrow> jsstring set \<Rightarrow> (jsstring \<times> nat \<times> nat) option \<Rightarrow> bool" where
  "lca_good A B S best =
     (case best of
        None \<Rightarrow> (\<forall>c\<in>S. map_of A c = None \<or> map_of B c = None)
      | Some (c, k, l) \<Rightarrow> map_of A c = Some k \<and> map_of B c = Some l \<and>
          (\<forall>c'\<in>S. \<forall>k' l'. map_of A c' = Some k' \<and> map_of B c' = Some l' \<longrightarrow> pair_le (k, l) (k', l')))"

lemma pair_le_refl: "pair_le x x"
  by (simp add: pair_le_def)

lemma pair_le_better:
  assumes "fst x + snd x < fst y + snd y \<or>
     (fst x + snd x = fst y + snd y \<and> max (fst x) (snd x) < max (fst y) (snd y))"
    and "pair_le y z"
  shows "pair_le x z"
  using assms unfolding pair_le_def by linarith

lemma pair_le_not_better:
  assumes "\<not> (fst x + snd x < fst y + snd y \<or>
     (fst x + snd x = fst y + snd y \<and> max (fst x) (snd x) < max (fst y) (snd y)))"
  shows "pair_le y x"
  using assms unfolding pair_le_def by linarith

lemma lca_good_step:
  assumes good: "lca_good A B S best"
  shows "lca_good A B (insert c S) (findLCA_step A B best c)"
proof (cases "map_of B c")
  case None
  then have "findLCA_step A B best c = best" by (simp add: findLCA_step_def)
  with good None show ?thesis
    by (auto simp: lca_good_def split: option.splits)
next
  case B: (Some dB)
  show ?thesis
  proof (cases "map_of A c")
    case None
    with B have "findLCA_step A B best c = best" by (simp add: findLCA_step_def)
    with good None show ?thesis
      by (auto simp: lca_good_def split: option.splits)
  next
    case A: (Some dA)
    show ?thesis
    proof (cases best)
      case None
      with A B have "findLCA_step A B best c = Some (c, dA, dB)" by (simp add: findLCA_step_def)
      moreover have "\<forall>c'\<in>S. map_of A c' = None \<or> map_of B c' = None"
        using good None by (simp add: lca_good_def)
      ultimately show ?thesis
        using A B by (auto simp: lca_good_def pair_le_refl)
    next
      case (Some r)
      obtain bid bA bB where r: "r = (bid, bA, bB)" by (cases r) auto
      from good Some r have old: "map_of A bid = Some bA" "map_of B bid = Some bB"
        "\<And>c' k' l'. c' \<in> S \<Longrightarrow> map_of A c' = Some k' \<Longrightarrow> map_of B c' = Some l'
           \<Longrightarrow> pair_le (bA, bB) (k', l')"
        by (auto simp: lca_good_def)
      let ?better = "dA + dB < bA + bB \<or> (dA + dB = bA + bB \<and> max dA dB < max bA bB)"
      from A B Some r have step:
        "findLCA_step A B best c = (if ?better then Some (c, dA, dB) else Some (bid, bA, bB))"
        by (simp add: findLCA_step_def)
      show ?thesis
      proof (cases ?better)
        case True
        with step have res: "findLCA_step A B best c = Some (c, dA, dB)"
          by (simp only: if_True)
        have "pair_le (dA, dB) (k', l')"
          if "c' \<in> insert c S" "map_of A c' = Some k'" "map_of B c' = Some l'" for c' k' l'
        proof (cases "c' = c")
          case True
          with that A B show ?thesis by (simp add: pair_le_refl)
        next
          case False
          with that have "pair_le (bA, bB) (k', l')" by (auto intro: old(3))
          with True show ?thesis by (intro pair_le_better [of "(dA, dB)" "(bA, bB)"]) simp_all
        qed
        with res A B show ?thesis by (auto simp: lca_good_def)
      next
        case False
        with step have res: "findLCA_step A B best c = Some (bid, bA, bB)"
          by (simp only: if_False)
        have "pair_le (bA, bB) (k', l')"
          if "c' \<in> insert c S" "map_of A c' = Some k'" "map_of B c' = Some l'" for c' k' l'
        proof (cases "c' = c")
          case True
          with that A B have "k' = dA" "l' = dB" by simp_all
          with False show ?thesis by (intro pair_le_not_better) simp
        next
          case False
          with that show ?thesis by (auto intro: old(3))
        qed
        with res old(1,2) show ?thesis by (auto simp: lca_good_def)
      qed
    qed
  qed
qed

lemma lca_good_foldl:
  "lca_good A B S best \<Longrightarrow> lca_good A B (S \<union> set ks) (foldl (findLCA_step A B) best ks)"
proof (induction ks arbitrary: S best)
  case Nil
  then show ?case by simp
next
  case (Cons c ks)
  from lca_good_step [OF Cons.prems, of c]
  have "lca_good A B (insert c S \<union> set ks) (foldl (findLCA_step A B) (findLCA_step A B best c) ks)"
    by (rule Cons.IH)
  then show ?case by simp
qed

lemma set_ownKeys: "set (ownKeys al) = fst ` set al"
  by (auto simp: ownKeys_def)

lemma findLCA_good:
  "lca_good (getAncestors a po) (getAncestors b po) (fst ` set (getAncestors a po)) (findLCA a b po)"
  using lca_good_foldl [of "getAncestors a po" "getAncestors b po" "{}" None "ownKeys (getAncestors a po)"]
  by (simp add: findLCA_def Let_def set_ownKeys lca_good_def)

lemma findLCA_None_iff:
  "findLCA a b parentsOf = None \<longleftrightarrow>
     fst ` set (getAncestors a parentsOf) \<inter> fst ` set (getAncestors b parentsOf) = {}"
proof -
  let ?A = "getAncestors a parentsOf" and ?B = "getAncestors b parentsOf"
  have good: "lca_good ?A ?B (fst ` set ?A) (findLCA a b parentsOf)" by (rule findLCA_good)
  have dom: "\<And>al :: nat obj. \<And>c. (map_of al c = None) = (c \<notin> fst ` set al)"
    by (simp add: map_of_eq_None_iff)
  show ?thesis
  proof
    assume "findLCA a b parentsOf = None"
    with good have "\<forall>c\<in>fst ` set ?A. map_of ?A c = None \<or> map_of ?B c = None"
      by (simp add: lca_good_def)
    then show "fst ` set ?A \<inter> fst ` set ?B = {}"
      unfolding dom by blast
  next
    assume disj: "fst ` set ?A \<inter> fst ` set ?B = {}"
    show "findLCA a b parentsOf = None"
    proof (cases "findLCA a b parentsOf")
      case None
      then show ?thesis .
    next
      case (Some r)
      obtain c k l where "r = (c, k, l)" by (cases r) auto
      with good Some have "map_of ?A c = Some k" "map_of ?B c = Some l"
        by (simp_all add: lca_good_def)
      then have "c \<in> fst ` set ?A" "c \<in> fst ` set ?B"
        by (metis dom option.distinct(1))+
      with disj show ?thesis by blast
    qed
  qed
qed

lemma findLCA_Some:
  assumes "findLCA a b parentsOf = Some (c, k, l)"
  shows "map_of (getAncestors a parentsOf) c = Some k \<and>
     map_of (getAncestors b parentsOf) c = Some l \<and>
     (\<forall>c' k' l'. map_of (getAncestors a parentsOf) c' = Some k' \<and>
                 map_of (getAncestors b parentsOf) c' = Some l' \<longrightarrow>
         k + l < k' + l' \<or> (k + l = k' + l' \<and> max k l \<le> max k' l'))"
proof -
  let ?A = "getAncestors a parentsOf" and ?B = "getAncestors b parentsOf"
  have good: "lca_good ?A ?B (fst ` set ?A) (findLCA a b parentsOf)" by (rule findLCA_good)
  have dom: "\<And>al :: nat obj. \<And>c. (map_of al c = None) = (c \<notin> fst ` set al)"
    by (simp add: map_of_eq_None_iff)
  from good assms have g: "map_of ?A c = Some k" "map_of ?B c = Some l"
    "\<forall>c'\<in>fst ` set ?A. \<forall>k' l'. map_of ?A c' = Some k' \<and> map_of ?B c' = Some l'
        \<longrightarrow> pair_le (k, l) (k', l')"
    by (simp_all add: lca_good_def)
  have "k + l < k' + l' \<or> (k + l = k' + l' \<and> max k l \<le> max k' l')"
    if h: "map_of ?A c' = Some k'" "map_of ?B c' = Some l'" for c' k' l'
  proof -
    from h(1) have "c' \<in> fst ` set ?A" by (metis dom option.distinct(1))
    with g(3) h have "pair_le (k, l) (k', l')" by blast
    then show ?thesis by (simp add: pair_le_def)
  qed
  with g(1,2) show ?thesis by blast
qed

text \<open>
  Claim C4.  On plain identifiers: \<open>findLCA\<close> returns \<open>null\<close> exactly when the two
  ancestor sets are disjoint.
  Otherwise it returns a common ancestor with its two distances, and no common ancestor
  has a smaller sum of distances, nor the same sum with a smaller maximum.
\<close>

theorem findLCA_minimal:
  assumes "plain_id a" and "plain_id b" and "plain_index parentsOf"
  shows "(findLCA a b parentsOf = None \<longleftrightarrow>
      fst ` set (getAncestors a parentsOf) \<inter> fst ` set (getAncestors b parentsOf) = {})
   \<and> (\<forall>c k l. findLCA a b parentsOf = Some (c, k, l) \<longrightarrow>
        map_of (getAncestors a parentsOf) c = Some k \<and>
        map_of (getAncestors b parentsOf) c = Some l \<and>
        (\<forall>c' k' l'. map_of (getAncestors a parentsOf) c' = Some k' \<and>
                    map_of (getAncestors b parentsOf) c' = Some l' \<longrightarrow>
            k + l < k' + l' \<or> (k + l = k' + l' \<and> max k l \<le> max k' l')))"
  using findLCA_None_iff [of a b parentsOf] findLCA_Some [of a b parentsOf] by blast

text \<open>
  Two common ancestors with the same sum: \<open>X\<close> at distances \<open>(1, 3)\<close> and \<open>Y\<close> at
  \<open>(2, 2)\<close>; the resolver returns \<open>Y\<close>.
\<close>

definition ex_tie :: "jsstring list obj" where
  "ex_tie = [(ascii ''a'', [ascii ''X'', ascii ''r'']), (ascii ''r'', [ascii ''Y'']),
     (ascii ''b'', [ascii ''p'', ascii ''t'']), (ascii ''p'', [ascii ''q'']),
     (ascii ''q'', [ascii ''X'']), (ascii ''t'', [ascii ''Y''])]"

lemma ex_tie_depths:
  "getAncestors (ascii ''a'') ex_tie = [(ascii ''X'', 1), (ascii ''r'', 1), (ascii ''Y'', 2)]"
  "getAncestors (ascii ''b'') ex_tie =
     [(ascii ''p'', 1), (ascii ''t'', 1), (ascii ''q'', 2), (ascii ''Y'', 2), (ascii ''X'', 3)]"
  by (simp_all add: getAncestors_def ex_tie_def parents_of_def)

lemma ex_tie_lca: "findLCA (ascii ''a'') (ascii ''b'') ex_tie = Some (ascii ''Y'', 2, 2)"
  unfolding findLCA_def ex_tie_depths
  by (simp add: ownKeys_def is_array_index_def is_digit_def findLCA_step_def)

theorem findLCA_minimal_witness:
  "findLCA (ascii ''a'') (ascii ''b'') ex_tie = Some (ascii ''Y'', 2, 2) \<and>
   map_of (getAncestors (ascii ''a'') ex_tie) (ascii ''X'') = Some 1 \<and>
   map_of (getAncestors (ascii ''b'') ex_tie) (ascii ''X'') = Some 3 \<and>
   fst ` set (getAncestors (ascii ''a'') ex_tie) \<inter> fst ` set (getAncestors (ascii ''b'') ex_tie) \<noteq> {} \<and>
   plain_id (ascii ''a'') \<and> plain_id (ascii ''b'') \<and> plain_index ex_tie"
proof -
  have pl: "plain_id (ascii ''a'')" "plain_id (ascii ''b'')" "plain_index ex_tie"
    by code_simp+
  have "fst ` set (getAncestors (ascii ''a'') ex_tie) \<inter> fst ` set (getAncestors (ascii ''b'') ex_tie) \<noteq> {}"
    using findLCA_minimal [OF pl] ex_tie_lca by auto
  moreover have "map_of (getAncestors (ascii ''a'') ex_tie) (ascii ''X'') = Some 1"
    "map_of (getAncestors (ascii ''b'') ex_tie) (ascii ''X'') = Some 3"
    unfolding ex_tie_depths by simp_all
  ultimately show ?thesis using ex_tie_lca pl by simp
qed

section \<open>Facts about the indexes\<close>

lemma parents_of_push_to:
  "parents_of (push_to m k v) c = (if c = k then parents_of m c @ [v] else parents_of m c)"
  by (cases "map_of m k") (simp_all add: push_to_def parents_of_def update_conv')

lemma parents_of_push_foldl:
  "parents_of (foldl (\<lambda>m e. push_to m (childId e) (parentId e)) m0 es) c
     = parents_of m0 c @ map parentId (filter (\<lambda>e. childId e = c) es)"
  by (induction es arbitrary: m0) (simp_all add: parents_of_push_to)

lemma parents_of_empty_foldl:
  "parents_of m0 c = [] \<Longrightarrow> parents_of (foldl (\<lambda>m p. AList.update (pid p) [] m) m0 ps) c = []"
proof (induction ps arbitrary: m0)
  case Nil
  then show ?case by simp
next
  case (Cons p ps)
  have "parents_of (AList.update (pid p) [] m0) c = []"
    using Cons.prems by (simp add: parents_of_def update_conv')
  then show ?case by (simp add: Cons.IH)
qed

lemma parents_of_index:
  "parents_of (index_parentsOf people edges) c = map parentId (filter (\<lambda>e. childId e = c) edges)"
proof -
  have "parents_of (index_empty people) c = []"
    unfolding index_empty_def by (rule parents_of_empty_foldl) (simp add: parents_of_def)
  then show ?thesis by (simp add: index_parentsOf_def parents_of_push_foldl)
qed

lemma find_append_cases:
  "List.find P (xs @ ys) = (case List.find P xs of None \<Rightarrow> List.find P ys | Some x \<Rightarrow> Some x)"
  by (induction xs) simp_all

lemma find_SomeD: "List.find P xs = Some x \<Longrightarrow> x \<in> set xs \<and> P x"
  by (induction xs) (auto split: if_splits)

lemma byId_foldl:
  "map_of (foldl (\<lambda>m p. AList.update (pid p) p m) m0 ps) i
     = (case List.find (\<lambda>p. pid p = i) (rev ps) of None \<Rightarrow> map_of m0 i | Some p \<Rightarrow> Some p)"
proof (induction ps arbitrary: m0)
  case Nil
  then show ?case by simp
next
  case (Cons p ps)
  show ?case
    by (simp add: Cons.IH find_append_cases update_conv' split: option.splits)
qed

lemma index_byId_lookup:
  "map_of (index_byId people) i = List.find (\<lambda>p. pid p = i) (rev people)"
  by (simp add: index_byId_def byId_foldl split: option.splits)

lemma index_byId_None: "map_of (index_byId people) i = None \<longleftrightarrow> i \<notin> pid ` set people"
  by (auto simp: index_byId_lookup find_None_iff)

lemma index_byId_distinct:
  assumes "distinct (map pid people)" and "p \<in> set people"
  shows "map_of (index_byId people) (pid p) = Some p"
proof (cases "List.find (\<lambda>q. pid q = pid p) (rev people)")
  case None
  with assms(2) show ?thesis by (auto simp: find_None_iff)
next
  case (Some q)
  then have "q \<in> set people" "pid q = pid p"
    by (auto dest: find_SomeD)
  with assms have "q = p" by (auto simp: distinct_map dest: inj_onD)
  with Some show ?thesis by (simp add: index_byId_lookup)
qed

section \<open>Facts about the path reconstruction\<close>

lemma pathToAncestor_parents_keeps:
  assumes "pathToAncestor_parents v ps (seen, prev, nxt) = (seen', prev', nxt')"
    and "x \<in> set seen"
  shows "x \<in> set seen' \<and> map_of prev' x = map_of prev x"
  using assms
proof (induction ps arbitrary: seen prev nxt)
  case Nil
  then show ?case by simp
next
  case (Cons p ps)
  show ?case
  proof (cases "p \<in> set seen")
    case True
    with Cons.prems show ?thesis by (intro Cons.IH [of seen prev nxt]) simp_all
  next
    case False
    with Cons.prems have "x \<noteq> p" by auto
    from Cons.prems False
    have "x \<in> set seen' \<and> map_of prev' x = map_of (AList.update p v prev) x"
      by (intro Cons.IH [of "seen @ [p]" "AList.update p v prev" "nxt @ [p]"]) simp_all
    with \<open>x \<noteq> p\<close> show ?thesis by (simp add: update_conv')
  qed
qed

lemma pathToAncestor_parents_next:
  assumes "pathToAncestor_parents v ps (seen, prev, nxt) = (seen', prev', nxt')"
  shows "set nxt \<subseteq> set nxt'"
  using assms
proof (induction ps arbitrary: seen prev nxt)
  case Nil
  then show ?case by simp
next
  case (Cons p ps)
  show ?case
  proof (cases "p \<in> set seen")
    case True
    with Cons.prems show ?thesis by (intro Cons.IH [of seen prev nxt]) simp
  next
    case False
    with Cons.prems have "set (nxt @ [p]) \<subseteq> set nxt'"
      by (intro Cons.IH [of "seen @ [p]" "AList.update p v prev" "nxt @ [p]"]) simp
    then show ?thesis by simp
  qed
qed

lemma pathToAncestor_parents_adds:
  assumes "pathToAncestor_parents v ps (seen, prev, nxt) = (seen', prev', nxt')"
    and "p \<in> set ps" and "p \<notin> set seen"
  shows "p \<in> set seen' \<and> p \<in> set nxt' \<and> map_of prev' p = Some v"
  using assms
proof (induction ps arbitrary: seen prev nxt)
  case Nil
  then show ?case by simp
next
  case (Cons q qs)
  show ?case
  proof (cases "q \<in> set seen")
    case True
    with Cons.prems have "p \<in> set qs" by auto
    with True Cons.prems show ?thesis by (intro Cons.IH [of seen prev nxt]) simp_all
  next
    case False
    let ?seen = "seen @ [q]" and ?prev = "AList.update q v prev" and ?nxt = "nxt @ [q]"
    from Cons.prems False
    have run: "pathToAncestor_parents v qs (?seen, ?prev, ?nxt) = (seen', prev', nxt')" by simp
    show ?thesis
    proof (cases "p = q")
      case True
      have "set ?nxt \<subseteq> set nxt'"
        using run by (rule pathToAncestor_parents_next)
      moreover from pathToAncestor_parents_keeps [OF run, of q]
      have "q \<in> set seen'" "map_of prev' q = Some v" by (simp_all add: update_conv')
      ultimately show ?thesis using True by auto
    next
      case False
      with Cons.prems \<open>q \<notin> set seen\<close> show ?thesis
        by (intro Cons.IH [of ?seen ?prev ?nxt]) (use run in auto)
    qed
  qed
qed

lemma pathToAncestor_climb_parent:
  assumes "map_of prev p = Some a" and "p \<noteq> a"
  shows "pathToAncestor_climb prev a (Some p) [] = Some (if p = [] then [] else [p])"
proof (cases "p = []")
  case True
  then show ?thesis by (subst pathToAncestor_climb.simps) simp
next
  case False
  with assms show ?thesis
    by (subst pathToAncestor_climb.simps, simp, subst pathToAncestor_climb.simps, simp)
qed

lemma pathToAncestor_layer_finds_parent:
  assumes "p \<in> set vs" and "p \<in> set seen" and "map_of prev p = Some a" and "p \<noteq> a"
  shows "pathToAncestor_layer a p parentsOf vs (seen, prev, nxt)
     = Inl (Some (a # (if p = [] then [] else [p])))"
  using assms
proof (induction vs arbitrary: seen prev nxt)
  case Nil
  then show ?case by simp
next
  case (Cons v vs)
  show ?case
  proof (cases "v = p")
    case True
    with Cons.prems show ?thesis by (simp add: pathToAncestor_climb_parent)
  next
    case False
    obtain seen1 prev1 nxt1 where
      step: "pathToAncestor_parents v (parents_of parentsOf v) (seen, prev, nxt) = (seen1, prev1, nxt1)"
      by (metis prod_cases3)
    from pathToAncestor_parents_keeps [OF step Cons.prems(2)] Cons.prems(3)
    have "p \<in> set seen1" "map_of prev1 p = Some a" by simp_all
    moreover from Cons.prems(1) False have "p \<in> set vs" by simp
    ultimately have "pathToAncestor_layer a p parentsOf vs (seen1, prev1, nxt1)
        = Inl (Some (a # (if p = [] then [] else [p])))"
      using Cons.prems(4) by (intro Cons.IH)
    with False step show ?thesis by simp
  qed
qed

lemma pathToAncestor_parent:
  assumes "p \<in> set (parents_of parentsOf a)" and "p \<noteq> a"
  shows "pathToAncestor a p parentsOf = Some (a # (if p = [] then [] else [p]))"
proof -
  obtain seen1 prev1 nxt1 where
    step: "pathToAncestor_parents a (parents_of parentsOf a) ([a], [], []) = (seen1, prev1, nxt1)"
    by (metis prod_cases3)
  from pathToAncestor_parents_adds [OF step assms(1)] assms(2)
  have p: "p \<in> set seen1" "p \<in> set nxt1" "map_of prev1 p = Some a" by simp_all
  then obtain v vs where nxt1: "nxt1 = v # vs" by (cases nxt1) auto
  have "pathToAncestor_layer a p parentsOf [a] ([a], [], []) = Inr (seen1, prev1, nxt1)"
    using assms(2) step by simp
  then have "pathToAncestor a p parentsOf
      = pathToAncestor_while a p parentsOf (v # vs) seen1 prev1"
    by (simp add: pathToAncestor_def nxt1)
  also have "\<dots> = Some (a # (if p = [] then [] else [p]))"
    using pathToAncestor_layer_finds_parent [OF p(2) p(1) p(3) assms(2), of parentsOf "[]"]
    by (simp add: nxt1 del: pathToAncestor_layer.simps)
  finally show ?thesis .
qed

lemma getAncestors_parent:
  assumes "p \<in> set (parents_of parentsOf a)" and "p \<noteq> a"
  shows "map_of (getAncestors a parentsOf) p = Some 1"
proof -
  have "hops parentsOf a (Suc 0) p" using assms(1) by (simp add: hops_Suc)
  with getAncestors_min_hops [of a parentsOf] assms(2)
  have "p \<in> fst ` set (getAncestors a parentsOf)" by blast
  then obtain d where d: "map_of (getAncestors a parentsOf) p = Some d"
    by (metis map_of_eq_None_iff not_Some_eq)
  with getAncestors_min_hops [of a parentsOf] have "min_hops parentsOf a p d" "0 < d" by blast+
  with \<open>hops parentsOf a (Suc 0) p\<close> have "d = 1"
    by (cases "Suc 0 < d") (auto simp: min_hops_def)
  with d show ?thesis by simp
qed

section \<open>Parent and child\<close>

definition line_of :: "person \<Rightarrow> jsstring" where
  "line_of p =
     (if sex p = ascii ''female'' then ([cy_p, cy_o] @ ascii '' '' @ [cy_m, cy_a, cy_t, cy_e, cy_r, cy_i, cy_n, cy_s, cy_k, cy_o, cy_j] @ ascii '' '' @ [cy_l, cy_i, cy_n, cy_i, cy_i])
      else if sex p = ascii ''male'' then ([cy_p, cy_o] @ ascii '' '' @ [cy_o, cy_t, cy_c, cy_o, cy_v, cy_s, cy_k, cy_o, cy_j] @ ascii '' '' @ [cy_l, cy_i, cy_n, cy_i, cy_i])
      else [])"

text \<open>
  Claim C8.  In a graph of plain identifiers, let \<open>pp\<close> and \<open>pa\<close> be the persons that
  \<open>byId\<close> holds for two different ids \<open>p\<close> and \<open>a\<close> (with unique ids, any two persons
  of the list), and let an edge from \<open>p\<close> to \<open>a\<close> be recorded.  Then the title is the
  parent word sexed by the parent and the reverse title the child word sexed by the
  child, both with the line annotation of the parent's sex (\<open>line_of\<close>; none when the
  sex is unknown), and the evidence is the path from the child to the parent.  When the
  parent's id is the empty string, which the path reconstruction treats as the end of a
  path, the two words have no annotation and the path is the child alone.
\<close>

theorem parent_child_labels:
  assumes "map_of (index_byId people) p = Some pp" and "map_of (index_byId people) a = Some pa"
    and "\<lparr>parentId = p, childId = a\<rparr> \<in> set edges" and "p \<noteq> a"
    and "plain_graph people edges"
  shows "relationLabel p a people edges =
     Some \<lparr>title = with_line (sexNoun (sex pp) [cy_o, cy_t, cy_e, cy_c] [cy_m, cy_a, cy_t, cy_soft] [cy_r, cy_o, cy_d, cy_i, cy_t, cy_e, cy_l, cy_soft]) (if p = [] then [] else line_of pp),
           details = [([Cy_o, cy_b, cy_sch, cy_i, cy_j] @ ascii '' '' @ [cy_p, cy_u, cy_t, cy_soft] @ ascii '': '') @ (if p = [] then name pa else name pa @ (ascii '' '' @ [right_arrow] @ ascii '' '') @ name pp)],
           reverseTitle = with_line (sexNoun (sex pa) [cy_s, cy_y, cy_n] [cy_d, cy_o, cy_ch, cy_soft] [cy_r, cy_e, cy_b, cy_yo, cy_n, cy_o, cy_k]) (if p = [] then [] else line_of pp)\<rparr>"
proof -
  let ?po = "index_parentsOf people edges" and ?byId = "index_byId people"
  note byId = assms(1,2)
  have par: "p \<in> set (parents_of ?po a)"
    using assms(3) by (force simp: parents_of_index)
  have up: "isAncestorOf p a ?po = 1"
    using getAncestors_parent [OF par assms(4)] by (simp add: isAncestorOf_def)
  have path: "pathToAncestor a p ?po = Some (a # (if p = [] then [] else [p]))"
    using par assms(4) by (rule pathToAncestor_parent)
  show ?thesis
  proof (cases "p = []")
    case True
    from path True have path': "pathToAncestor a [] ?po = Some [a]" by simp
    have line: "describeLine ?byId [a] = []"
      by (simp add: describeLine_def)
    have names: "common_path ?byId [a] = ([Cy_o, cy_b, cy_sch, cy_i, cy_j] @ ascii '' '' @ [cy_p, cy_u, cy_t, cy_soft] @ ascii '': '') @ name pa"
      by (simp add: common_path_def name_in_join_def byId)
    from up True have up': "isAncestorOf [] a ?po = 1" by simp
    from byId True have byId': "map_of ?byId [] = Some pp" "map_of ?byId a = Some pa" by simp_all
    show ?thesis
      unfolding True
      by (simp add: relationLabel_def buildIndexes_def byId' up' path' line names
          describeAncestor_def describeDescendant_def Let_def with_line_def)
  next
    case False
    from path False have path': "pathToAncestor a p ?po = Some [a, p]" by simp
    have line: "describeLine ?byId [a, p] = line_of pp"
      by (simp add: describeLine_def byId line_of_def)
    have names: "common_path ?byId [a, p] = ([Cy_o, cy_b, cy_sch, cy_i, cy_j] @ ascii '' '' @ [cy_p, cy_u, cy_t, cy_soft] @ ascii '': '') @ name pa @ (ascii '' '' @ [right_arrow] @ ascii '' '') @ name pp"
      by (simp add: common_path_def name_in_join_def byId)
    show ?thesis
      by (simp add: relationLabel_def buildIndexes_def byId up path' line names False
          describeAncestor_def describeDescendant_def Let_def)
  qed
qed

section \<open>Scenarios of the classifier\<close>

definition mk_person :: "jsstring \<Rightarrow> jsstring \<Rightarrow> jsstring \<Rightarrow> person" where
  "mk_person i n sx = \<lparr>pid = i, name = n, sex = sx, pnote = None\<rparr>"

definition mk_edge :: "jsstring \<Rightarrow> jsstring \<Rightarrow> edge" where
  "mk_edge p c = \<lparr>parentId = p, childId = c\<rparr>"

text \<open>
  Scenario 1, with the ids and names of the program's own self-test: father 1000, mother
  1001, son 1002, daughter 1003.
\<close>

definition ex_siblings_people :: "person list" where
  "ex_siblings_people =
     [mk_person (ascii ''1000'') [Cy_o, cy_t, cy_e, cy_c] (ascii ''male''),
      mk_person (ascii ''1001'') [Cy_m, cy_a, cy_t, cy_soft] (ascii ''female''),
      mk_person (ascii ''1002'') [Cy_s, cy_y, cy_n] (ascii ''male''),
      mk_person (ascii ''1003'') [Cy_d, cy_o, cy_ch, cy_soft] (ascii ''female'')]"

definition ex_siblings_edges :: "edge list" where
  "ex_siblings_edges =
     [mk_edge (ascii ''1000'') (ascii ''1002''), mk_edge (ascii ''1001'') (ascii ''1002''),
      mk_edge (ascii ''1000'') (ascii ''1003''), mk_edge (ascii ''1001'') (ascii ''1003'')]"

text \<open>
  Claim C2.  In the sibling branch the \<open>title\<close> (the role of the first person) is the
  word sexed by the second person, and the \<open>reverseTitle\<close> the word sexed by the first:
  for the son and the daughter the title is "sister" and the reverse title "brother".
\<close>

theorem siblings_brother_sister:
  "relationLabel (ascii ''1002'') (ascii ''1003'') ex_siblings_people ex_siblings_edges =
     Some \<lparr>title = [cy_s, cy_e, cy_s, cy_t, cy_r, cy_a],
           details = [([Cy_o, cy_b, cy_sch, cy_i, cy_j] @ ascii '' '' @ [cy_p, cy_r, cy_e, cy_d, cy_o, cy_k] @ ascii '': '') @ [Cy_o, cy_t, cy_e, cy_c],
                      ([Cy_l, cy_i, cy_n, cy_i, cy_i] @ ascii '': '') @ ([cy_p, cy_o] @ ascii '' '' @ [cy_o, cy_t, cy_c, cy_o, cy_v, cy_s, cy_k, cy_o, cy_j] @ ascii '' '' @ [cy_l, cy_i, cy_n, cy_i, cy_i]) @ ascii '' / '' @ ([cy_p, cy_o] @ ascii '' '' @ [cy_o, cy_t, cy_c, cy_o, cy_v, cy_s, cy_k, cy_o, cy_j] @ ascii '' '' @ [cy_l, cy_i, cy_n, cy_i, cy_i])],
           reverseTitle = [cy_b, cy_r, cy_a, cy_t]\<rparr>"
  by code_simp

text \<open>
  Two persons who are each other's uncle: \<open>X\<close> is a parent of \<open>a\<close> and, through \<open>p\<close>,
  a grandparent of \<open>b\<close>; \<open>Y\<close> is a parent of \<open>b\<close> and, through \<open>q\<close>, a grandparent of
  \<open>a\<close>.  The graph is acyclic, and the identifiers are not array indices, so the keys of
  a dictionary are listed in insertion order.
\<close>

definition ex_uncles_people :: "person list" where
  "ex_uncles_people =
     [mk_person (ascii ''a'') (ascii ''a'') (ascii ''male''),
      mk_person (ascii ''b'') (ascii ''b'') (ascii ''male''),
      mk_person (ascii ''X'') (ascii ''X'') (ascii ''male''),
      mk_person (ascii ''Y'') (ascii ''Y'') (ascii ''male''),
      mk_person (ascii ''p'') (ascii ''p'') (ascii ''male''),
      mk_person (ascii ''q'') (ascii ''q'') (ascii ''male'')]"

definition ex_uncles_edges :: "edge list" where
  "ex_uncles_edges =
     [mk_edge (ascii ''X'') (ascii ''a''), mk_edge (ascii ''q'') (ascii ''a''),
      mk_edge (ascii ''Y'') (ascii ''b''), mk_edge (ascii ''p'') (ascii ''b''),
      mk_edge (ascii ''X'') (ascii ''p''), mk_edge (ascii ''Y'') (ascii ''q'')]"


lemma ex_uncles_acyclic:
  "acyclic (parent_rel (index_parentsOf ex_uncles_people ex_uncles_edges))"
proof (rule acyclicI_order)
  fix a b
  assume "(a, b) \<in> parent_rel (index_parentsOf ex_uncles_people ex_uncles_edges)"
  then show "length (getAncestors b (index_parentsOf ex_uncles_people ex_uncles_edges))
      < length (getAncestors a (index_parentsOf ex_uncles_people ex_uncles_edges))"
    by (auto simp: parent_rel_def parents_of_def ex_uncles_people_def ex_uncles_edges_def
        index_parentsOf_def index_empty_def push_to_def mk_person_def mk_edge_def
        getAncestors_def split: if_splits)
qed

text \<open>
  Claim C1.  Both common ancestors have the distances 1 and 2; each call keeps the first
  one in the key order of its own first argument, so both calls name their first
  argument the uncle: the title of one call is not the reverse title of the other.
\<close>

theorem uncles_not_reciprocal:
  "relationLabel (ascii ''a'') (ascii ''b'') ex_uncles_people ex_uncles_edges =
     Some \<lparr>title = [cy_d, cy_ya, cy_d, cy_ya], details = [([Cy_o, cy_b, cy_sch, cy_i, cy_j] @ ascii '' '' @ [cy_p, cy_r, cy_e, cy_d, cy_o, cy_k] @ ascii '': '') @ ascii ''X''],
           reverseTitle = [cy_p, cy_l, cy_e, cy_m, cy_ya, cy_n, cy_n, cy_i, cy_k]\<rparr> \<and>
   relationLabel (ascii ''b'') (ascii ''a'') ex_uncles_people ex_uncles_edges =
     Some \<lparr>title = [cy_d, cy_ya, cy_d, cy_ya], details = [([Cy_o, cy_b, cy_sch, cy_i, cy_j] @ ascii '' '' @ [cy_p, cy_r, cy_e, cy_d, cy_o, cy_k] @ ascii '': '') @ ascii ''Y''],
           reverseTitle = [cy_p, cy_l, cy_e, cy_m, cy_ya, cy_n, cy_n, cy_i, cy_k]\<rparr>"
  by code_simp



text \<open>
  Scenario 2, with the ids and names of the program's own self-test: the mother 2000 and
  her child 2001, one edge.
\<close>

definition ex_mother_people :: "person list" where
  "ex_mother_people =
     [mk_person (ascii ''2000'') [Cy_m, cy_a, cy_m, cy_a] (ascii ''female''),
      mk_person (ascii ''2001'') [Cy_r, cy_e, cy_b, cy_yo, cy_n, cy_o, cy_k] (ascii ''male'')]"

definition ex_mother_edges :: "edge list" where
  "ex_mother_edges = [mk_edge (ascii ''2000'') (ascii ''2001'')]"

theorem parent_child_labels_witness:
  "plain_graph ex_mother_people ex_mother_edges \<and>
   relationLabel (ascii ''2000'') (ascii ''2001'') ex_mother_people ex_mother_edges =
     Some \<lparr>title = [cy_m, cy_a, cy_t, cy_soft] @ ascii '' ('' @ ([cy_p, cy_o] @ ascii '' '' @ [cy_m, cy_a, cy_t, cy_e, cy_r, cy_i, cy_n, cy_s, cy_k, cy_o, cy_j] @ ascii '' '' @ [cy_l, cy_i, cy_n, cy_i, cy_i]) @ ascii '')'',
           details = [([Cy_o, cy_b, cy_sch, cy_i, cy_j] @ ascii '' '' @ [cy_p, cy_u, cy_t, cy_soft] @ ascii '': '') @ [Cy_r, cy_e, cy_b, cy_yo, cy_n, cy_o, cy_k] @ (ascii '' '' @ [right_arrow] @ ascii '' '') @ [Cy_m, cy_a, cy_m, cy_a]],
           reverseTitle = [cy_s, cy_y, cy_n] @ ascii '' ('' @ ([cy_p, cy_o] @ ascii '' '' @ [cy_m, cy_a, cy_t, cy_e, cy_r, cy_i, cy_n, cy_s, cy_k, cy_o, cy_j] @ ascii '' '' @ [cy_l, cy_i, cy_n, cy_i, cy_i]) @ ascii '')''\<rparr>"
proof -
  have h: "map_of (index_byId ex_mother_people) (ascii ''2000'') = Some (mk_person (ascii ''2000'') [Cy_m, cy_a, cy_m, cy_a] (ascii ''female''))"
    "map_of (index_byId ex_mother_people) (ascii ''2001'') = Some (mk_person (ascii ''2001'') [Cy_r, cy_e, cy_b, cy_yo, cy_n, cy_o, cy_k] (ascii ''male''))"
    "\<lparr>parentId = ascii ''2000'', childId = ascii ''2001''\<rparr> \<in> set ex_mother_edges"
    "ascii ''2000'' \<noteq> ascii ''2001''"
    "plain_graph ex_mother_people ex_mother_edges"
    by code_simp+
  from parent_child_labels [OF h] h(5) show ?thesis
    by (simp add: mk_person_def line_of_def with_line_def sexNoun_def)
qed

text \<open>
  The evidence of Scenario 2 is the path alone; the line annotation is part of the two
  titles and is no element of the evidence list.
\<close>

theorem maternal_line_in_titles_only:
  "relationLabel (ascii ''2000'') (ascii ''2001'') ex_mother_people ex_mother_edges =
     Some \<lparr>title = [cy_m, cy_a, cy_t, cy_soft] @ ascii '' ('' @ ([cy_p, cy_o] @ ascii '' '' @ [cy_m, cy_a, cy_t, cy_e, cy_r, cy_i, cy_n, cy_s, cy_k, cy_o, cy_j] @ ascii '' '' @ [cy_l, cy_i, cy_n, cy_i, cy_i]) @ ascii '')'',
           details = [([Cy_o, cy_b, cy_sch, cy_i, cy_j] @ ascii '' '' @ [cy_p, cy_u, cy_t, cy_soft] @ ascii '': '') @ [Cy_r, cy_e, cy_b, cy_yo, cy_n, cy_o, cy_k] @ (ascii '' '' @ [right_arrow] @ ascii '' '') @ [Cy_m, cy_a, cy_m, cy_a]],
           reverseTitle = [cy_s, cy_y, cy_n] @ ascii '' ('' @ ([cy_p, cy_o] @ ascii '' '' @ [cy_m, cy_a, cy_t, cy_e, cy_r, cy_i, cy_n, cy_s, cy_k, cy_o, cy_j] @ ascii '' '' @ [cy_l, cy_i, cy_n, cy_i, cy_i]) @ ascii '')''\<rparr>"
  by code_simp

section \<open>The classifier always returns\<close>

text \<open>
  \<open>climb_ends prev fromId u\<close>: the loop \<open>while (u && u !== fromId) u = prev[u]\<close>
  started at \<open>u\<close> ends.
\<close>

inductive climb_ends :: "jsstring obj \<Rightarrow> jsstring \<Rightarrow> jsstring option \<Rightarrow> bool"
  for prev :: "jsstring obj" and fromId :: jsstring where
  undefined: "climb_ends prev fromId None"
| stop: "x = [] \<or> x = fromId \<Longrightarrow> climb_ends prev fromId (Some x)"
| step: "climb_ends prev fromId (map_of prev x) \<Longrightarrow> climb_ends prev fromId (Some x)"

lemma climb_ends_returns:
  "climb_ends prev fromId u \<Longrightarrow> \<exists>r. pathToAncestor_climb prev fromId u path = Some r"
proof (induction arbitrary: path rule: climb_ends.induct)
  case undefined
  show ?case by (subst pathToAncestor_climb.simps) simp
next
  case (stop x)
  then show ?case by (subst pathToAncestor_climb.simps) auto
next
  case (step x)
  show ?case
  proof (cases "x = [] \<or> x = fromId")
    case True
    then show ?thesis by (subst pathToAncestor_climb.simps) auto
  next
    case False
    with step.IH [of "path @ [x]"] show ?thesis
      by (subst pathToAncestor_climb.simps) auto
  qed
qed

definition scan_inv :: "jsstring \<Rightarrow> jsstring list \<Rightarrow> jsstring obj \<Rightarrow> bool" where
  "scan_inv fromId seen prev =
     ((\<forall>x y. map_of prev x = Some y \<longrightarrow> x \<in> set seen \<and> y \<in> set seen) \<and>
      (\<forall>x \<in> set seen. climb_ends prev fromId (Some x)))"

lemma climb_ends_update:
  assumes "climb_ends prev fromId u"
    and "\<forall>x y. map_of prev x = Some y \<longrightarrow> x \<in> S \<and> y \<in> S"
    and "p \<notin> S" and "\<forall>x. u = Some x \<longrightarrow> x \<in> S"
  shows "climb_ends (AList.update p v prev) fromId u"
  using assms
proof (induction rule: climb_ends.induct)
  case undefined
  show ?case by (rule climb_ends.undefined)
next
  case (stop x)
  then show ?case by (intro climb_ends.stop)
next
  case (step x)
  from step.prems have "x \<in> S" "x \<noteq> p" by auto
  then have same: "map_of (AList.update p v prev) x = map_of prev x" by (simp add: update_conv')
  have "\<forall>y. map_of prev x = Some y \<longrightarrow> y \<in> S" using step.prems(1) by blast
  with step.IH step.prems have "climb_ends (AList.update p v prev) fromId (map_of prev x)" by blast
  with same show ?case by (intro climb_ends.step) simp
qed

lemma scan_inv_add:
  assumes inv: "scan_inv fromId seen prev" and v: "v \<in> set seen" and p: "p \<notin> set seen"
  shows "scan_inv fromId (seen @ [p]) (AList.update p v prev)"
proof -
  from inv have dom: "\<forall>x y. map_of prev x = Some y \<longrightarrow> x \<in> set seen \<and> y \<in> set seen"
    and ends: "\<forall>x \<in> set seen. climb_ends prev fromId (Some x)"
    by (auto simp: scan_inv_def)
  have old: "climb_ends (AList.update p v prev) fromId (Some x)" if "x \<in> set seen" for x
    using ends that dom p by (intro climb_ends_update [where S = "set seen"]) auto
  have "climb_ends (AList.update p v prev) fromId (map_of (AList.update p v prev) p)"
    using old [OF v] by (simp add: update_conv')
  then have new: "climb_ends (AList.update p v prev) fromId (Some p)"
    by (rule climb_ends.step)
  have dom': "\<forall>x y. map_of (AList.update p v prev) x = Some y
      \<longrightarrow> x \<in> set (seen @ [p]) \<and> y \<in> set (seen @ [p])"
    using dom v by (auto simp: update_conv')
  show ?thesis
    unfolding scan_inv_def using dom' old new by auto
qed

lemma pathToAncestor_parents_inv:
  assumes "pathToAncestor_parents v ps (seen, prev, nxt) = (seen', prev', nxt')"
    and "scan_inv fromId seen prev" and "v \<in> set seen" and "set nxt \<subseteq> set seen"
  shows "scan_inv fromId seen' prev' \<and> set seen \<subseteq> set seen' \<and> set nxt' \<subseteq> set seen'"
  using assms
proof (induction ps arbitrary: seen prev nxt)
  case Nil
  then show ?case by simp
next
  case (Cons p ps)
  show ?case
  proof (cases "p \<in> set seen")
    case True
    with Cons.prems show ?thesis by (intro Cons.IH [of seen prev nxt]) simp_all
  next
    case False
    from Cons.prems False
    have "scan_inv fromId seen' prev' \<and> set (seen @ [p]) \<subseteq> set seen' \<and> set nxt' \<subseteq> set seen'"
      by (intro Cons.IH [of "seen @ [p]" "AList.update p v prev" "nxt @ [p]"])
        (auto intro: scan_inv_add)
    then show ?thesis by simp
  qed
qed

lemma pathToAncestor_layer_inv:
  assumes "scan_inv fromId seen prev" and "set vs \<subseteq> set seen" and "set nxt \<subseteq> set seen"
  shows "case pathToAncestor_layer fromId ancestorId parentsOf vs (seen, prev, nxt) of
           Inl r \<Rightarrow> r \<noteq> None
         | Inr (seen', prev', nxt') \<Rightarrow> scan_inv fromId seen' prev' \<and> set nxt' \<subseteq> set seen'"
  using assms
proof (induction vs arbitrary: seen prev nxt)
  case Nil
  then show ?case by simp
next
  case (Cons v vs)
  show ?case
  proof (cases "v = ancestorId")
    case True
    from Cons.prems have "climb_ends prev fromId (Some v)" by (auto simp: scan_inv_def)
    from climb_ends_returns [OF this, of "[]"] True show ?thesis by auto
  next
    case False
    obtain seen1 prev1 nxt1 where
      step: "pathToAncestor_parents v (parents_of parentsOf v) (seen, prev, nxt) = (seen1, prev1, nxt1)"
      by (metis prod_cases3)
    from Cons.prems have "v \<in> set seen" by simp
    from pathToAncestor_parents_inv [OF step Cons.prems(1) this Cons.prems(3)]
    have "scan_inv fromId seen1 prev1" "set seen \<subseteq> set seen1" "set nxt1 \<subseteq> set seen1" by simp_all
    moreover from this(2) Cons.prems(2) have "set vs \<subseteq> set seen1" by auto
    ultimately have "case pathToAncestor_layer fromId ancestorId parentsOf vs (seen1, prev1, nxt1) of
           Inl r \<Rightarrow> r \<noteq> None
         | Inr (seen', prev', nxt') \<Rightarrow> scan_inv fromId seen' prev' \<and> set nxt' \<subseteq> set seen'"
      by (intro Cons.IH)
    with False step show ?thesis by simp
  qed
qed

lemma pathToAncestor_while_returns:
  assumes "scan_inv fromId seen prev" and "set layer \<subseteq> set seen"
  shows "pathToAncestor_while fromId ancestorId parentsOf layer seen prev \<noteq> None"
  using assms
proof (induction fromId ancestorId parentsOf layer seen prev rule: pathToAncestor_while.induct)
  case (1 fromId ancestorId parentsOf seen prev)
  show ?case by simp
next
  case (2 fromId ancestorId parentsOf v vs seen prev)
  from pathToAncestor_layer_inv [OF "2.prems"(1,2), of "[]" ancestorId parentsOf]
  have layer: "case pathToAncestor_layer fromId ancestorId parentsOf (v # vs) (seen, prev, []) of
           Inl r \<Rightarrow> r \<noteq> None
         | Inr (seen', prev', nxt') \<Rightarrow> scan_inv fromId seen' prev' \<and> set nxt' \<subseteq> set seen'"
    by simp
  have unfold: "pathToAncestor_while fromId ancestorId parentsOf (v # vs) seen prev =
     (case pathToAncestor_layer fromId ancestorId parentsOf (v # vs) (seen, prev, []) of
        Inl r \<Rightarrow> r
      | Inr (seen', prev', nxt) \<Rightarrow>
          pathToAncestor_while fromId ancestorId parentsOf nxt seen' prev')"
    by (rule pathToAncestor_while.simps)
  show ?case
  proof (cases "pathToAncestor_layer fromId ancestorId parentsOf (v # vs) (seen, prev, [])")
    case (Inl r)
    with layer have "r \<noteq> None" by (simp del: pathToAncestor_layer.simps)
    moreover from unfold Inl
    have "pathToAncestor_while fromId ancestorId parentsOf (v # vs) seen prev = r"
      by (simp only: sum.case)
    ultimately show ?thesis by simp
  next
    case (Inr st)
    obtain seen' prev' nxt' where st: "st = (seen', prev', nxt')" by (metis prod_cases3)
    from Inr st have run: "pathToAncestor_layer fromId ancestorId parentsOf (v # vs) (seen, prev, [])
        = Inr (seen', prev', nxt')" by (simp only:)
    from layer run have inv': "scan_inv fromId seen' prev'" and sub': "set nxt' \<subseteq> set seen'"
      by (simp_all del: pathToAncestor_layer.simps)
    have "pathToAncestor_while fromId ancestorId parentsOf nxt' seen' prev' \<noteq> None"
      using "2.IH" [OF run refl refl inv' sub'] .
    moreover from unfold run
    have "pathToAncestor_while fromId ancestorId parentsOf (v # vs) seen prev
        = pathToAncestor_while fromId ancestorId parentsOf nxt' seen' prev'"
      by (simp only: sum.case prod.case)
    ultimately show ?thesis by simp
  qed
qed

lemma pathToAncestor_returns: "\<exists>path. pathToAncestor fromId ancestorId parentsOf = Some path"
proof -
  have "scan_inv fromId [fromId] []"
    by (simp add: scan_inv_def climb_ends.stop)
  from pathToAncestor_while_returns [OF this, of "[fromId]" ancestorId parentsOf]
  show ?thesis by (simp add: pathToAncestor_def del: pathToAncestor_while.simps)
qed


section \<open>Kinship labels and the two miss results\<close>

text \<open>
  Every kinship label starts with a lower-case Cyrillic letter, a digit or a minus sign;
  the two miss titles start with a dash and with a capital letter.
\<close>

definition kin_label :: "jsstring \<Rightarrow> bool" where
  "kin_label s = (s \<noteq> [] \<and> hd s \<noteq> em_dash \<and> hd s \<noteq> Cy_s)"

lemma kin_label_Cons [simp]: "kin_label (x # xs) = (x \<noteq> em_dash \<and> x \<noteq> Cy_s)"
  by (simp add: kin_label_def)

lemma kin_label_Nil [simp]: "\<not> kin_label []"
  by (simp add: kin_label_def)

lemma kin_label_append: "kin_label a \<Longrightarrow> kin_label (a @ b)"
  by (cases a) (simp_all add: kin_label_def)

lemma kin_label_sexNoun [simp]:
  "kin_label (sexNoun sx a b c) =
     (if sx = ascii ''female'' then kin_label b else if sx = ascii ''male'' then kin_label a
      else kin_label c)"
  by (simp add: sexNoun_def)

lemma show_nat_hd: "show_nat n \<noteq> [] \<and> 48 \<le> hd (show_nat n) \<and> hd (show_nat n) < 58"
proof (induction n rule: show_nat.induct)
  case (1 n)
  show ?case
  proof (cases "n < 10")
    case True
    then show ?thesis by (subst (1 2 3) show_nat.simps) simp
  next
    case False
    with 1 show ?thesis by (subst (1 2 3) show_nat.simps) simp
  qed
qed

lemma kin_label_show_int: "kin_label (show_int i @ rest)"
proof -
  have "kin_label (show_nat n)" for n
    using show_nat_hd [of n] by (auto simp: kin_label_def)
  then show ?thesis
    by (auto simp: show_int_def intro: kin_label_append)
qed

lemma kin_label_cousin: "cousinDegreeWord n = [] \<or> kin_label (cousinDegreeWord n)"
  using kin_label_show_int [of n] by (simp add: cousinDegreeWord_def)

lemma kin_label_base [simp]:
  "kin_label (cousinDegreeWord n @ rest) =
     (if cousinDegreeWord n = [] then kin_label rest else True)"
  using kin_label_cousin [of n] by (auto intro: kin_label_append)

lemma kin_label_describeAncestor [simp]: "kin_label (describeAncestor d sx)"
  by (simp add: describeAncestor_def)

lemma kin_label_describeDescendant [simp]: "kin_label (describeDescendant d sx)"
  by (simp add: describeDescendant_def)

lemma kin_label_with_line [simp]: "kin_label t \<Longrightarrow> kin_label (with_line t line)"
  by (simp add: with_line_def kin_label_append)

lemma relationLabel_lca_kin:
  "\<exists>r. relationLabel_lca A B byId parentsOf people fromId toId anc k l = Some r
      \<and> kin_label (title r) \<and> kin_label (reverseTitle r) \<and> details r \<noteq> []"
proof -
  obtain pathA pathB where
    "pathToAncestor fromId anc parentsOf = Some pathA" "pathToAncestor toId anc parentsOf = Some pathB"
    using pathToAncestor_returns by blast
  then show ?thesis
    by (simp add: relationLabel_lca_def Let_def)
qed

lemma miss_titles_not_kin:
  "\<not> kin_label (title relation_unknown)" "\<not> kin_label (reverseTitle relation_unknown)"
  "\<not> kin_label (title relation_not_found)" "\<not> kin_label (reverseTitle relation_not_found)"
  by (simp_all add: relation_unknown_def relation_not_found_def)

lemma relationLabel_cases:
  "relationLabel fromId toId people edges = Some relation_unknown
     \<and> (fromId \<notin> pid ` set people \<or> toId \<notin> pid ` set people)
   \<or> relationLabel fromId toId people edges = Some relation_not_found
     \<and> fromId \<in> pid ` set people \<and> toId \<in> pid ` set people
     \<and> isAncestorOf fromId toId (index_parentsOf people edges) < 1
     \<and> isAncestorOf toId fromId (index_parentsOf people edges) < 1
     \<and> findLCA fromId toId (index_parentsOf people edges) = None
   \<or> (\<exists>r. relationLabel fromId toId people edges = Some r
        \<and> kin_label (title r) \<and> kin_label (reverseTitle r) \<and> details r \<noteq> []
        \<and> fromId \<in> pid ` set people \<and> toId \<in> pid ` set people
        \<and> (1 \<le> isAncestorOf fromId toId (index_parentsOf people edges)
           \<or> 1 \<le> isAncestorOf toId fromId (index_parentsOf people edges)
           \<or> findLCA fromId toId (index_parentsOf people edges) \<noteq> None))"
proof -
  let ?po = "index_parentsOf people edges" and ?byId = "index_byId people"
  show ?thesis
  proof (cases "map_of ?byId fromId")
    case None
    then have "fromId \<notin> pid ` set people" by (simp add: index_byId_None)
    with None show ?thesis
      by (simp add: relationLabel_def buildIndexes_def)
  next
    case A: (Some A)
    show ?thesis
    proof (cases "map_of ?byId toId")
      case None
      then have "toId \<notin> pid ` set people" by (simp add: index_byId_None)
      with None A show ?thesis
        by (simp add: relationLabel_def buildIndexes_def)
    next
      case B: (Some B)
      from A B have present: "fromId \<in> pid ` set people" "toId \<in> pid ` set people"
        using index_byId_None [of people fromId] index_byId_None [of people toId] by simp_all
      obtain p1 p2 where paths: "pathToAncestor toId fromId ?po = Some p1"
        "pathToAncestor fromId toId ?po = Some p2"
        using pathToAncestor_returns by blast
      show ?thesis
      proof (cases "1 \<le> isAncestorOf fromId toId ?po")
        case True
        with A B paths present show ?thesis
          by (simp add: relationLabel_def buildIndexes_def Let_def)
      next
        case up: False
        show ?thesis
        proof (cases "1 \<le> isAncestorOf toId fromId ?po")
          case True
          with A B paths present up show ?thesis
            by (simp add: relationLabel_def buildIndexes_def Let_def)
        next
          case down: False
          show ?thesis
          proof (cases "findLCA fromId toId ?po")
            case None
            with A B up down present show ?thesis
              by (simp add: relationLabel_def buildIndexes_def Let_def)
          next
            case (Some r)
            obtain anc k l where r: "r = (anc, k, l)" by (metis prod_cases3)
            from relationLabel_lca_kin [of A B ?byId ?po people fromId toId anc "int k" "int l"]
            obtain res where "relationLabel_lca A B ?byId ?po people fromId toId anc (int k) (int l)
                = Some res" "kin_label (title res)" "kin_label (reverseTitle res)" "details res \<noteq> []"
              by blast
            with A B up down present Some r show ?thesis
              by (simp add: relationLabel_def buildIndexes_def Let_def)
          qed
        qed
      qed
    qed
  qed
qed


lemma getAncestors_sound:
  "map_of (getAncestors s parentsOf) v = Some d \<Longrightarrow> hops parentsOf s d v \<and> 0 < d"
  using getAncestors_min_hops [of s parentsOf] by (auto simp: min_hops_def)

lemma isAncestorOf_no_path:
  assumes "\<forall>n. 0 < n \<longrightarrow> \<not> hops parentsOf b n a"
  shows "isAncestorOf a b parentsOf = - 1"
proof (cases "map_of (getAncestors b parentsOf) a")
  case None
  then show ?thesis by (simp add: isAncestorOf_def)
next
  case (Some d)
  from getAncestors_sound [OF this] assms show ?thesis by blast
qed

lemma findLCA_no_common:
  assumes "\<forall>c n m. 0 < n \<and> 0 < m \<longrightarrow> \<not> (hops parentsOf a n c \<and> hops parentsOf b m c)"
  shows "findLCA a b parentsOf = None"
proof -
  have "fst ` set (getAncestors a parentsOf) \<inter> fst ` set (getAncestors b parentsOf) = {}"
  proof (rule ccontr)
    assume "fst ` set (getAncestors a parentsOf) \<inter> fst ` set (getAncestors b parentsOf) \<noteq> {}"
    then obtain c where "c \<in> fst ` set (getAncestors a parentsOf)"
      "c \<in> fst ` set (getAncestors b parentsOf)" by blast
    then obtain n m where "map_of (getAncestors a parentsOf) c = Some n"
      "map_of (getAncestors b parentsOf) c = Some m"
      by (metis map_of_eq_None_iff not_Some_eq)
    from getAncestors_sound [OF this(1)] getAncestors_sound [OF this(2)] assms
    show False by blast
  qed
  then show ?thesis by (simp add: findLCA_None_iff)
qed

text \<open>
  Claim C6.  \<open>relationLabel\<close> returns a result for all plain ids and all collections of
  plain identifiers.  When
  one of the ids is not the id of a person, the result is the placeholder
  \<open>relation_unknown\<close> (both titles a dash, no evidence).  When both are persons, neither
  is reached from the other by parent hops and no id is reached from both, the result is
  \<open>relation_not_found\<close> (both titles "relation not found", no evidence).  Every other
  result has evidence, and its titles differ from the titles of the two miss results.
\<close>

theorem relationLabel_misses:
  assumes "plain_id fromId" and "plain_id toId" and "plain_graph people edges"
  shows "(\<exists>r. relationLabel fromId toId people edges = Some r) \<and>
   (fromId \<notin> pid ` set people \<or> toId \<notin> pid ` set people \<longrightarrow>
      relationLabel fromId toId people edges = Some relation_unknown) \<and>
   (fromId \<in> pid ` set people \<and> toId \<in> pid ` set people \<and>
    (\<forall>n. 0 < n \<longrightarrow> \<not> hops (index_parentsOf people edges) toId n fromId
                  \<and> \<not> hops (index_parentsOf people edges) fromId n toId) \<and>
    (\<forall>c n m. 0 < n \<and> 0 < m \<longrightarrow>
        \<not> (hops (index_parentsOf people edges) fromId n c
           \<and> hops (index_parentsOf people edges) toId m c)) \<longrightarrow>
      relationLabel fromId toId people edges = Some relation_not_found) \<and>
   (\<forall>r. relationLabel fromId toId people edges = Some r \<and> r \<noteq> relation_unknown
        \<and> r \<noteq> relation_not_found \<longrightarrow>
      details r \<noteq> [] \<and>
      title r \<noteq> title relation_unknown \<and> title r \<noteq> title relation_not_found \<and>
      reverseTitle r \<noteq> reverseTitle relation_unknown \<and>
      reverseTitle r \<noteq> reverseTitle relation_not_found)"
proof -
  let ?po = "index_parentsOf people edges"
  note cases = relationLabel_cases [of fromId toId people edges]
  have 1: "\<exists>r. relationLabel fromId toId people edges = Some r"
    using cases by blast
  have 2: "relationLabel fromId toId people edges = Some relation_unknown"
    if "fromId \<notin> pid ` set people \<or> toId \<notin> pid ` set people"
    using cases that by blast
  have 3: "relationLabel fromId toId people edges = Some relation_not_found"
    if h: "fromId \<in> pid ` set people \<and> toId \<in> pid ` set people \<and>
      (\<forall>n. 0 < n \<longrightarrow> \<not> hops ?po toId n fromId \<and> \<not> hops ?po fromId n toId) \<and>
      (\<forall>c n m. 0 < n \<and> 0 < m \<longrightarrow> \<not> (hops ?po fromId n c \<and> hops ?po toId m c))"
  proof -
    from h have "isAncestorOf fromId toId ?po = - 1" "isAncestorOf toId fromId ?po = - 1"
      by (simp_all add: isAncestorOf_no_path)
    moreover from h have "findLCA fromId toId ?po = None"
      by (intro findLCA_no_common) blast
    ultimately show ?thesis using cases h by auto
  qed
  have 4: "details r \<noteq> [] \<and>
      title r \<noteq> title relation_unknown \<and> title r \<noteq> title relation_not_found \<and>
      reverseTitle r \<noteq> reverseTitle relation_unknown \<and>
      reverseTitle r \<noteq> reverseTitle relation_not_found"
    if h: "relationLabel fromId toId people edges = Some r \<and> r \<noteq> relation_unknown
        \<and> r \<noteq> relation_not_found" for r
  proof -
    from cases h have "kin_label (title r)" "kin_label (reverseTitle r)" "details r \<noteq> []"
      by auto
    with miss_titles_not_kin show ?thesis by metis
  qed
  from 1 2 3 4 show ?thesis by blast
qed

lemma hops_no_edges: "0 < n \<Longrightarrow> \<not> hops (index_parentsOf people []) s n v"
  by (cases n) (simp_all add: hops_Suc parents_of_index)

theorem relationLabel_misses_witness:
  "plain_id (ascii ''9'') \<and> plain_id (ascii ''2000'') \<and> plain_id (ascii ''2001'') \<and>
   plain_graph ex_mother_people ex_mother_edges \<and> plain_graph ex_mother_people [] \<and>
   relationLabel (ascii ''9'') (ascii ''2001'') ex_mother_people ex_mother_edges
     = Some relation_unknown \<and>
   relationLabel (ascii ''2000'') (ascii ''2001'') ex_mother_people [] = Some relation_not_found"
proof -
  have pl: "plain_id (ascii ''9'')" "plain_id (ascii ''2000'')" "plain_id (ascii ''2001'')"
    "plain_graph ex_mother_people ex_mother_edges" "plain_graph ex_mother_people []"
    by code_simp+
  have "relationLabel (ascii ''9'') (ascii ''2001'') ex_mother_people ex_mother_edges
     = Some relation_unknown"
    using relationLabel_misses [OF pl(1) pl(3) pl(4)]
    by (simp add: ex_mother_people_def mk_person_def)
  moreover have "relationLabel (ascii ''2000'') (ascii ''2001'') ex_mother_people []
     = Some relation_not_found"
    using relationLabel_misses [OF pl(2) pl(3) pl(5)]
    by (simp add: ex_mother_people_def mk_person_def hops_no_edges)
  ultimately show ?thesis using pl by simp
qed

text \<open>
  An id that is not the id of a person gives the dash placeholder, which is not the
  "relation not found" result.
\<close>

theorem unknown_id_is_not_relation_not_found:
  "relationLabel (ascii ''9'') (ascii ''2001'') ex_mother_people ex_mother_edges =
     Some \<lparr>title = [em_dash], details = [], reverseTitle = [em_dash]\<rparr> \<and>
   relationLabel (ascii ''9'') (ascii ''2001'') ex_mother_people ex_mother_edges
     \<noteq> Some \<lparr>title = ([Cy_s, cy_v, cy_ya, cy_z, cy_soft] @ ascii '' '' @ [cy_n, cy_e] @ ascii '' '' @ [cy_n, cy_a, cy_j, cy_d, cy_e, cy_n, cy_a]), details = [], reverseTitle = ([Cy_s, cy_v, cy_ya, cy_z, cy_soft] @ ascii '' '' @ [cy_n, cy_e] @ ascii '' '' @ [cy_n, cy_a, cy_j, cy_d, cy_e, cy_n, cy_a])\<rparr>"
  by code_simp


section \<open>Text normalization\<close>

text \<open>
  \<open>normalizeText\<close> is a pipeline of six string operations.  \<open>String.prototype.toLowerCase\<close>
  is a built-in of the language whose table covers all of Unicode; it is the parameter
  \<open>lower\<close> of the model.  The regular expressions work on code units:
  \<open>is_space\<close> is the class \<open>\s\<close> (which is also what \<open>trim\<close> removes), and
  \<open>is_word_unit\<close> is \<open>[a-z\<dots>0-9]\<close> with the Cyrillic range U+0430 to U+044F.
\<close>

definition is_space :: "nat \<Rightarrow> bool" where
  "is_space c =
     (c \<in> {9, 10, 11, 12, 13, 32, 160, 5760, 8232, 8233, 8239, 8287, 12288, 65279}
      \<or> (8192 \<le> c \<and> c \<le> 8202))"

definition is_word_unit :: "nat \<Rightarrow> bool" where
  "is_word_unit c = ((97 \<le> c \<and> c \<le> 122) \<or> (cy_a \<le> c \<and> c \<le> cy_ya) \<or> (48 \<le> c \<and> c \<le> 57))"

definition replace_yo :: "jsstring \<Rightarrow> jsstring" where
  "replace_yo s = map (\<lambda>c. if c = cy_yo then cy_e else c) s"

definition replace_dashes :: "jsstring \<Rightarrow> jsstring" where
  "replace_dashes s = map (\<lambda>c. if c = en_dash \<or> c = em_dash \<or> c = 45 then 32 else c) s"

definition replace_punctuation :: "jsstring \<Rightarrow> jsstring" where
  "replace_punctuation s = map (\<lambda>c. if is_word_unit c \<or> is_space c then c else 32) s"

function collapse_spaces :: "jsstring \<Rightarrow> jsstring" where
  "collapse_spaces [] = []"
| "collapse_spaces (c # cs) =
     (if is_space c then 32 # collapse_spaces (dropWhile is_space cs)
      else c # collapse_spaces cs)"
  by pat_completeness auto
termination
  by (relation "measure length") (simp_all add: length_dropWhile_le less_Suc_eq_le)

definition trim :: "jsstring \<Rightarrow> jsstring" where
  "trim s = rev (dropWhile is_space (rev (dropWhile is_space s)))"

definition normalizeText :: "(jsstring \<Rightarrow> jsstring) \<Rightarrow> jsstring \<Rightarrow> jsstring" where
  "normalizeText lower s =
     trim (collapse_spaces (replace_punctuation (replace_dashes (replace_yo (lower s)))))"

text \<open>
  A model of \<open>toLowerCase\<close> on Basic Latin and on the Cyrillic capitals U+0400 to
  U+042F; other code units are left as they are.  It stands for the built-in only at the
  example phrases, whose code units are letters of these two alphabets, spaces and
  dashes; the general theorems have the lower-casing function as a parameter.
\<close>

definition toLowerCase :: "jsstring \<Rightarrow> jsstring" where
  "toLowerCase s =
     map (\<lambda>c. if 65 \<le> c \<and> c \<le> 90 then c + 32
              else if 1040 \<le> c \<and> c \<le> 1071 then c + 32
              else if 1024 \<le> c \<and> c \<le> 1039 then c + 80
              else c) s"

subsection \<open>Idempotence\<close>

text \<open>
  \<open>spaced s\<close>: every white-space unit of \<open>s\<close> is a single space character that is
  followed by a unit that is not white space, if by any.
\<close>

fun spaced :: "jsstring \<Rightarrow> bool" where
  "spaced [] = True"
| "spaced [c] = (c = 32 \<or> \<not> is_space c)"
| "spaced (c # d # ds) = ((if is_space c then c = 32 \<and> \<not> is_space d else True) \<and> spaced (d # ds))"

lemma is_space_32 [simp]: "is_space 32"
  by (simp add: is_space_def)

lemma spaced_tl: "spaced (c # cs) \<Longrightarrow> spaced cs"
  by (cases cs) simp_all

lemma spaced_collapse: "spaced (collapse_spaces s)"
proof (induction s rule: collapse_spaces.induct)
  case 1
  show ?case by simp
next
  case (2 c cs)
  show ?case
  proof (cases "is_space c")
    case True
    let ?rest = "dropWhile is_space cs"
    from True 2 have ih: "spaced (collapse_spaces ?rest)" by simp
    show ?thesis
    proof (cases ?rest)
      case Nil
      have "collapse_spaces (c # cs) = 32 # collapse_spaces ?rest" using True by simp
      also have "\<dots> = [32]" unfolding Nil by simp
      finally show ?thesis by simp
    next
      case (Cons d ds)
      then have "\<not> is_space d" using hd_dropWhile [of is_space cs] by auto
      with Cons ih True show ?thesis by simp
    qed
  next
    case False
    with 2 have ih: "spaced (collapse_spaces cs)" by simp
    show ?thesis
    proof (cases "collapse_spaces cs")
      case Nil
      with False show ?thesis by simp
    next
      case (Cons d ds)
      with ih False show ?thesis by simp
    qed
  qed
qed

lemma collapse_spaced: "spaced s \<Longrightarrow> collapse_spaces s = s"
proof (induction s rule: spaced.induct)
  case 1
  show ?case by simp
next
  case (2 c)
  then show ?case by auto
next
  case (3 c d ds)
  then show ?case by auto
qed

lemma spaced_append_left: "spaced (xs @ ys) \<Longrightarrow> spaced xs"
proof (induction xs rule: spaced.induct)
  case 1
  show ?case by simp
next
  case (2 c)
  then show ?case by (cases ys) (auto split: if_splits)
next
  case (3 c d ds)
  then show ?case by simp
qed

lemma spaced_dropWhile: "spaced s \<Longrightarrow> spaced (dropWhile P s)"
  by (induction s) (auto dest: spaced_tl)

lemma trim_prefix: "\<exists>ys. dropWhile is_space s = trim s @ ys"
proof -
  have "rev (rev (dropWhile is_space s)) =
      rev (dropWhile is_space (rev (dropWhile is_space s)))
      @ rev (takeWhile is_space (rev (dropWhile is_space s)))"
    by (simp flip: rev_append)
  then show ?thesis by (auto simp: trim_def)
qed

lemma spaced_trim: "spaced s \<Longrightarrow> spaced (trim s)"
proof -
  assume "spaced s"
  then have "spaced (dropWhile is_space s)" by (rule spaced_dropWhile)
  with trim_prefix [of s] show ?thesis by (auto dest: spaced_append_left)
qed

lemma set_trim: "set (trim s) \<subseteq> set s"
proof -
  have "set (trim s) \<subseteq> set (dropWhile is_space s)"
    using trim_prefix [of s] by auto
  also have "\<dots> \<subseteq> set s" by (rule set_dropWhileD [THEN subsetI]) 
  finally show ?thesis .
qed

lemma trim_ends:
  "trim s = [] \<or> (\<not> is_space (hd (trim s)) \<and> \<not> is_space (last (trim s)))"
proof (cases "trim s = []")
  case True
  then show ?thesis by simp
next
  case False
  let ?u = "dropWhile is_space s"
  from False have ne: "dropWhile is_space (rev ?u) \<noteq> []" by (simp add: trim_def)
  then have "\<not> is_space (hd (dropWhile is_space (rev ?u)))" by (rule hd_dropWhile)
  then have l: "\<not> is_space (last (trim s))" using ne by (simp add: trim_def last_rev)
  obtain ys where ys: "?u = trim s @ ys" using trim_prefix by blast
  with False have "?u \<noteq> []" by auto
  then have "\<not> is_space (hd ?u)" by (rule hd_dropWhile)
  with ys False have "\<not> is_space (hd (trim s))" by (metis hd_append2)
  with l show ?thesis by simp
qed

lemma trim_id:
  assumes "s = [] \<or> (\<not> is_space (hd s) \<and> \<not> is_space (last s))"
  shows "trim s = s"
proof (cases s)
  case Nil
  then show ?thesis by (simp add: trim_def)
next
  case (Cons c cs)
  with assms have c: "\<not> is_space c" and l: "\<not> is_space (last s)" by auto
  have 1: "dropWhile is_space s = s" using Cons c by simp
  have "rev s \<noteq> []" using Cons by simp
  moreover have "\<not> is_space (hd (rev s))" unfolding hd_rev by (rule l)
  ultimately have 2: "dropWhile is_space (rev s) = rev s" by (cases "rev s") simp_all
  show ?thesis by (simp only: trim_def 1 2 rev_rev_ident)
qed

lemma set_collapse: "set (collapse_spaces s) \<subseteq> insert 32 {c \<in> set s. \<not> is_space c}"
proof (induction s rule: collapse_spaces.induct)
  case 1
  show ?case by simp
next
  case (2 c cs)
  show ?case
  proof (cases "is_space c")
    case True
    with 2 have "set (collapse_spaces (dropWhile is_space cs))
        \<subseteq> insert 32 {c \<in> set (dropWhile is_space cs). \<not> is_space c}" by simp
    moreover have "set (dropWhile is_space cs) \<subseteq> set cs" by (auto dest: set_dropWhileD)
    ultimately show ?thesis using True by auto
  next
    case False
    with 2 show ?thesis by auto
  qed
qed

lemma normalizeText_units:
  "c \<in> set (normalizeText lower s) \<Longrightarrow> c = 32 \<or> is_word_unit c"
proof -
  assume "c \<in> set (normalizeText lower s)"
  then have "c \<in> set (collapse_spaces (replace_punctuation (replace_dashes (replace_yo (lower s)))))"
    using set_trim by (auto simp: normalizeText_def)
  then have "c = 32 \<or> (c \<in> set (replace_punctuation (replace_dashes (replace_yo (lower s))))
      \<and> \<not> is_space c)"
    using set_collapse by blast
  then show ?thesis by (auto simp: replace_punctuation_def split: if_splits)
qed

lemma word_unit_facts:
  "\<not> is_word_unit cy_yo" "\<not> is_word_unit en_dash" "\<not> is_word_unit em_dash"
  "\<not> is_word_unit 45" "\<not> is_word_unit 32"
  by (simp_all add: is_word_unit_def)

lemma replace_id:
  assumes "\<forall>c \<in> set t. c = 32 \<or> is_word_unit c"
  shows "replace_punctuation (replace_dashes (replace_yo t)) = t"
proof -
  have "(if c = cy_yo then cy_e else c) = c" if "c \<in> set t" for c
    using assms that word_unit_facts by auto
  then have "replace_yo t = t"
    unfolding replace_yo_def by (intro map_idI)
  moreover have "(if c = en_dash \<or> c = em_dash \<or> c = 45 then 32 else c) = c" if "c \<in> set t" for c
    using assms that word_unit_facts by auto
  then have "replace_dashes t = t"
    unfolding replace_dashes_def by (intro map_idI)
  moreover have "(if is_word_unit c \<or> is_space c then c else 32) = c" if "c \<in> set t" for c
    using assms that by auto
  then have "replace_punctuation t = t"
    unfolding replace_punctuation_def by (intro map_idI)
  ultimately show ?thesis by simp
qed

text \<open>
  Claim C10.  \<open>normalizeText\<close> is idempotent, for every lower-casing function that leaves
  unchanged the strings made of lower-case Latin and Cyrillic letters, digits and spaces.
\<close>

theorem normalizeText_idempotent:
  assumes "\<And>t. \<forall>c \<in> set t. c = 32 \<or> is_word_unit c \<Longrightarrow> lower t = t"
  shows "normalizeText lower (normalizeText lower s) = normalizeText lower s"
proof -
  let ?t = "normalizeText lower s"
  have units: "\<forall>c \<in> set ?t. c = 32 \<or> is_word_unit c"
    using normalizeText_units by blast
  have "spaced ?t"
    unfolding normalizeText_def by (intro spaced_trim spaced_collapse)
  then have "collapse_spaces ?t = ?t" by (rule collapse_spaced)
  moreover have "trim ?t = ?t"
    using trim_ends [of "collapse_spaces (replace_punctuation (replace_dashes (replace_yo (lower s))))"]
    by (intro trim_id) (simp add: normalizeText_def)
  moreover have "lower ?t = ?t" using units by (rule assms)
  moreover have "replace_punctuation (replace_dashes (replace_yo ?t)) = ?t"
    using units by (rule replace_id)
  ultimately show ?thesis
    by (simp add: normalizeText_def [of lower ?t])
qed

lemma toLowerCase_fixes:
  assumes "\<forall>c \<in> set t. c = 32 \<or> is_word_unit c"
  shows "toLowerCase t = t"
  unfolding toLowerCase_def using assms
  by (intro map_idI) (auto simp: is_word_unit_def)

definition ex_phrase :: jsstring where
  "ex_phrase = ([cy_e, cy_g, cy_o] @ ascii '' '' @ [cy_m, cy_a, cy_t, cy_soft] @ ascii '' '' @ [em_dash] @ ascii '' '' @ [cy_m, cy_l, cy_a, cy_d, cy_sh, cy_a, cy_ya] @ ascii '' '' @ [cy_s, cy_e, cy_s, cy_t, cy_r, cy_a] @ ascii '' '' @ [cy_e, cy_yo] @ ascii '' '' @ [cy_d, cy_e, cy_d, cy_a] @ ascii '' '' @ [cy_p, cy_o] @ ascii '' '' @ [cy_m, cy_a, cy_t, cy_e, cy_r, cy_i, cy_n, cy_s, cy_k, cy_o, cy_j] @ ascii '' '' @ [cy_l, cy_i, cy_n, cy_i, cy_i])"

lemma ex_phrase_normalized:
  "normalizeText toLowerCase ex_phrase = ([cy_e, cy_g, cy_o] @ ascii '' '' @ [cy_m, cy_a, cy_t, cy_soft] @ ascii '' '' @ [cy_m, cy_l, cy_a, cy_d, cy_sh, cy_a, cy_ya] @ ascii '' '' @ [cy_s, cy_e, cy_s, cy_t, cy_r, cy_a] @ ascii '' '' @ [cy_e, cy_e] @ ascii '' '' @ [cy_d, cy_e, cy_d, cy_a] @ ascii '' '' @ [cy_p, cy_o] @ ascii '' '' @ [cy_m, cy_a, cy_t, cy_e, cy_r, cy_i, cy_n, cy_s, cy_k, cy_o, cy_j] @ ascii '' '' @ [cy_l, cy_i, cy_n, cy_i, cy_i])"
  by (simp add: ex_phrase_def normalizeText_def toLowerCase_def replace_yo_def replace_dashes_def
      replace_punctuation_def is_word_unit_def is_space_def trim_def)

theorem normalizeText_idempotent_witness:
  "normalizeText toLowerCase (normalizeText toLowerCase ex_phrase)
     = normalizeText toLowerCase ex_phrase \<and>
   normalizeText toLowerCase ex_phrase
     = ([cy_e, cy_g, cy_o] @ ascii '' '' @ [cy_m, cy_a, cy_t, cy_soft] @ ascii '' '' @ [cy_m, cy_l, cy_a, cy_d, cy_sh, cy_a, cy_ya] @ ascii '' '' @ [cy_s, cy_e, cy_s, cy_t, cy_r, cy_a] @ ascii '' '' @ [cy_e, cy_e] @ ascii '' '' @ [cy_d, cy_e, cy_d, cy_a] @ ascii '' '' @ [cy_p, cy_o] @ ascii '' '' @ [cy_m, cy_a, cy_t, cy_e, cy_r, cy_i, cy_n, cy_s, cy_k, cy_o, cy_j] @ ascii '' '' @ [cy_l, cy_i, cy_n, cy_i, cy_i])"
  using normalizeText_idempotent [of toLowerCase ex_phrase] toLowerCase_fixes ex_phrase_normalized
  by simp


section \<open>Phrase parser\<close>

text \<open>
  A thrown \<open>Error\<close> is a value of \<open>parse_error\<close>; \<open>message\<close> is its text.  The token
  array is a list, and \<open>tokens[i]\<close> is \<open>token_at tokens i\<close> (\<open>None\<close> is \<open>undefined\<close>).
\<close>

datatype parse_error =
  EmptyInput
  | ExpectedPronoun
  | ExpectedRelationTerm
  | MissingLine
  | UnknownRelationTerm jsstring
  | ExpectedSiblingWord

definition message :: "parse_error \<Rightarrow> jsstring" where
  "message e =
     (case e of
        EmptyInput \<Rightarrow> ([Cy_p, cy_u, cy_s, cy_t, cy_a, cy_ya] @ ascii '' '' @ [cy_s, cy_t, cy_r, cy_o, cy_k, cy_a])
      | ExpectedPronoun \<Rightarrow> ([Cy_o, cy_zh, cy_i, cy_d, cy_a, cy_l, cy_i] @ ascii '' '' @ [laquo, cy_e, cy_g, cy_o] @ ascii ''/'' @ [cy_e, cy_e, raquo])
      | ExpectedRelationTerm \<Rightarrow> ([Cy_o, cy_zh, cy_i, cy_d, cy_a, cy_l, cy_i] @ ascii '' '' @ [cy_t, cy_e, cy_r, cy_m, cy_i, cy_n] @ ascii '' '' @ [cy_r, cy_o, cy_d, cy_s, cy_t, cy_v, cy_a] @ ascii '' '' @ [cy_p, cy_o, cy_s, cy_l, cy_e] @ ascii '' '' @ [laquo, cy_e, cy_g, cy_o] @ ascii ''/'' @ [cy_e, cy_e, raquo])
      | MissingLine \<Rightarrow> ([Cy_u, cy_t, cy_o, cy_ch, cy_n, cy_i, cy_t, cy_e] @ ascii '' '' @ [cy_l, cy_i, cy_n, cy_i, cy_yu] @ ascii '': '' @ [laquo, cy_p, cy_o] @ ascii '' '' @ [cy_m, cy_a, cy_t, cy_e, cy_r, cy_i, cy_n, cy_s, cy_k, cy_o, cy_j] @ ascii '' '' @ [cy_l, cy_i, cy_n, cy_i, cy_i, raquo] @ ascii '' '' @ [cy_i, cy_l, cy_i] @ ascii '' '' @ [laquo, cy_p, cy_o] @ ascii '' '' @ [cy_o, cy_t, cy_c, cy_o, cy_v, cy_s, cy_k, cy_o, cy_j] @ ascii '' '' @ [cy_l, cy_i, cy_n, cy_i, cy_i, raquo] @ ascii '' '' @ [cy_d, cy_l, cy_ya] @ ascii '' '' @ [laquo, cy_d, cy_e, cy_d] @ ascii ''/'' @ [cy_b, cy_a, cy_b, cy_u, cy_sh, cy_k, cy_a, raquo])
      | UnknownRelationTerm w \<Rightarrow> ([Cy_n, cy_e, cy_i, cy_z, cy_v, cy_e, cy_s, cy_t, cy_n, cy_y, cy_j] @ ascii '' '' @ [cy_t, cy_e, cy_r, cy_m, cy_i, cy_n] @ ascii '' '' @ [cy_r, cy_o, cy_d, cy_s, cy_t, cy_v, cy_a] @ ascii '': '') @ w
      | ExpectedSiblingWord \<Rightarrow> ([Cy_o, cy_zh, cy_i, cy_d, cy_a, cy_l, cy_i] @ ascii '' '' @ [laquo, cy_s, cy_e, cy_s, cy_t, cy_r, cy_a] @ ascii ''/'' @ [cy_b, cy_r, cy_a, cy_t, raquo]))"

definition PRONOUN :: "jsstring set" where
  "PRONOUN = { [cy_e, cy_g, cy_o], [cy_e, cy_e], [cy_e, cy_yo] }"

definition FILLERS :: "jsstring set" where
  "FILLERS = { [cy_eh, cy_t, cy_o], [cy_e, cy_s, cy_t, cy_soft], [cy_ya, cy_v, cy_l, cy_ya, cy_e, cy_t, cy_s, cy_ya], [cy_ya, cy_v, cy_l] }"

definition SIBLING_WORDS :: "jsstring set" where
  "SIBLING_WORDS = { [cy_s, cy_e, cy_s, cy_t, cy_r, cy_a], [cy_b, cy_r, cy_a, cy_t] }"

definition RANK_WORDS :: "jsstring set" where
  "RANK_WORDS = { [cy_m, cy_l, cy_a, cy_d, cy_sh, cy_a, cy_ya], [cy_s, cy_t, cy_a, cy_r, cy_sh, cy_a, cy_ya], [cy_m, cy_l, cy_a, cy_d, cy_sh, cy_i, cy_j], [cy_s, cy_t, cy_a, cy_r, cy_sh, cy_i, cy_j] }"

definition motherWords :: "jsstring set" where
  "motherWords = { [cy_m, cy_a, cy_t, cy_soft], [cy_m, cy_a, cy_m, cy_a] }"

definition fatherWords :: "jsstring set" where
  "fatherWords = { [cy_o, cy_t, cy_e, cy_c], [cy_p, cy_a, cy_p, cy_a] }"

definition isGrandfatherWord :: "jsstring \<Rightarrow> bool" where
  "isGrandfatherWord w = (take 3 w = [cy_d, cy_e, cy_d] \<or> take 6 w = [cy_d, cy_e, cy_d, cy_u, cy_sh, cy_k])"

definition isGrandmotherWord :: "jsstring \<Rightarrow> bool" where
  "isGrandmotherWord w = (take 3 w = [cy_b, cy_a, cy_b])"

definition token_at :: "jsstring list \<Rightarrow> nat \<Rightarrow> jsstring option" where
  "token_at tokens i = (if i < length tokens then Some (tokens ! i) else None)"

definition takeLine :: "jsstring list \<Rightarrow> nat \<Rightarrow> jsstring option \<times> nat" where
  "takeLine tokens i =
     (if token_at tokens i = Some [cy_p, cy_o]
         \<and> (token_at tokens (i + 1) = Some [cy_m, cy_a, cy_t, cy_e, cy_r, cy_i, cy_n, cy_s, cy_k, cy_o, cy_j] \<or> token_at tokens (i + 1) = Some [cy_o, cy_t, cy_c, cy_o, cy_v, cy_s, cy_k, cy_o, cy_j])
         \<and> token_at tokens (i + 2) = Some [cy_l, cy_i, cy_n, cy_i, cy_i]
      then (Some (if token_at tokens (i + 1) = Some [cy_m, cy_a, cy_t, cy_e, cy_r, cy_i, cy_n, cy_s, cy_k, cy_o, cy_j] then ascii ''maternal''
                  else ascii ''paternal''), i + 3)
      else (None, i))"

record relative_spec =
  base :: jsstring
  steps :: "jsstring list"
  terminalLabel :: jsstring
  terminalSex :: jsstring
  specNote :: jsstring
  specNext :: nat

definition parseRelativeSpec :: "jsstring list \<Rightarrow> nat \<Rightarrow> parse_error + relative_spec" where
  "parseRelativeSpec tokens i0 =
     (case token_at tokens i0 of
        None \<Rightarrow> Inl ExpectedPronoun
      | Some pron \<Rightarrow>
          if pron \<notin> PRONOUN then Inl ExpectedPronoun
          else
            let base = (if pron = [cy_e, cy_g, cy_o] then ascii ''he'' else ascii ''she'');
                he = (base = ascii ''he'');
                i = i0 + 1
            in case token_at tokens i of
                 None \<Rightarrow> Inl ExpectedRelationTerm
               | Some w \<Rightarrow>
                   if w = [] then Inl ExpectedRelationTerm
                   else if w \<in> motherWords then
                     Inr \<lparr>base = base, steps = [ascii ''mother''],
                          terminalLabel = (if he then ([Cy_e, cy_g, cy_o] @ ascii '' '' @ [cy_m, cy_a, cy_t, cy_soft]) else ([Cy_e, cy_yo] @ ascii '' '' @ [cy_m, cy_a, cy_t, cy_soft])),
                          terminalSex = ascii ''female'', specNote = [], specNext = i + 1\<rparr>
                   else if w \<in> fatherWords then
                     Inr \<lparr>base = base, steps = [ascii ''father''],
                          terminalLabel = (if he then ([Cy_e, cy_g, cy_o] @ ascii '' '' @ [cy_o, cy_t, cy_e, cy_c]) else ([Cy_e, cy_yo] @ ascii '' '' @ [cy_o, cy_t, cy_e, cy_c])),
                          terminalSex = ascii ''male'', specNote = [], specNext = i + 1\<rparr>
                   else if isGrandfatherWord w \<or> isGrandmotherWord w then
                     (let gf = isGrandfatherWord w
                      in case takeLine tokens (i + 1) of
                           (None, nxt) \<Rightarrow> Inl MissingLine
                         | (Some side, nxt) \<Rightarrow>
                             Inr \<lparr>base = base,
                                  steps =
                                    (if side = ascii ''maternal''
                                     then [ascii ''mother'', if gf then ascii ''father'' else ascii ''mother'']
                                     else [ascii ''father'', if gf then ascii ''father'' else ascii ''mother'']),
                                  terminalLabel =
                                    (if he then ([Cy_e, cy_g, cy_o] @ ascii '' '') else ([Cy_e, cy_yo] @ ascii '' ''))
                                    @ (if gf then [cy_d, cy_e, cy_d] else [cy_b, cy_a, cy_b, cy_u, cy_sh, cy_k, cy_a]) @ ascii '' (''
                                    @ (if side = ascii ''maternal'' then ([cy_p, cy_o] @ ascii '' '' @ [cy_m, cy_a, cy_t, cy_e, cy_r, cy_i, cy_n, cy_s, cy_k, cy_o, cy_j] @ ascii '' '' @ [cy_l, cy_i, cy_n, cy_i, cy_i])
                                       else ([cy_p, cy_o] @ ascii '' '' @ [cy_o, cy_t, cy_c, cy_o, cy_v, cy_s, cy_k, cy_o, cy_j] @ ascii '' '' @ [cy_l, cy_i, cy_n, cy_i, cy_i]))
                                    @ ascii '')'',
                                  terminalSex = (if gf then ascii ''male'' else ascii ''female''),
                                  specNote = [], specNext = nxt\<rparr>)
                   else Inl (UnknownRelationTerm w))"

record connector =
  kind :: jsstring
  rank :: "jsstring option"
  connNext :: nat

function skip_fillers :: "jsstring list \<Rightarrow> nat \<Rightarrow> nat" where
  "skip_fillers tokens i =
     (if i < length tokens
         \<and> (tokens ! i \<in> FILLERS \<or> tokens ! i = [em_dash] \<or> tokens ! i = ascii ''-'')
      then skip_fillers tokens (i + 1) else i)"
  by pat_completeness auto
termination
  by (relation "measure (\<lambda>(tokens, i). length tokens - i)") auto

declare skip_fillers.simps [simp del]

definition parseSiblingConnector :: "jsstring list \<Rightarrow> nat \<Rightarrow> parse_error + connector" where
  "parseSiblingConnector tokens i0 =
     (let i1 = skip_fillers tokens i0;
          ranked = (i1 < length tokens \<and> tokens ! i1 \<in> RANK_WORDS);
          rnk = (if ranked then Some (tokens ! i1) else None);
          i = (if ranked then i1 + 1 else i1)
      in if length tokens \<le> i then Inl ExpectedSiblingWord
         else if tokens ! i \<notin> SIBLING_WORDS then Inl ExpectedSiblingWord
         else Inr \<lparr>kind = tokens ! i, rank = rnk, connNext = i + 1\<rparr>)"

section \<open>Graph synthesizer\<close>

definition labelForPath :: "jsstring \<Rightarrow> jsstring list \<Rightarrow> jsstring \<times> jsstring" where
  "labelForPath b path =
     (let he = (b = ascii ''he'');
          other = ((if he then ([Cy_e, cy_g, cy_o] @ ascii '' '' @ [cy_p, cy_r, cy_e, cy_d, cy_o, cy_k]) else ([Cy_e, cy_yo] @ ascii '' '' @ [cy_p, cy_r, cy_e, cy_d, cy_o, cy_k])) @ (ascii '' '' @ [cy_v] @ ascii '' '')
                     @ show_nat (length path) @ (ascii ''-'' @ [cy_m] @ ascii '' '' @ [cy_k, cy_o, cy_l, cy_e, cy_n, cy_e]),
                   ascii ''unknown'')
      in if length path = 1 then
           (if hd path = ascii ''mother''
            then (if he then ([Cy_e, cy_g, cy_o] @ ascii '' '' @ [cy_m, cy_a, cy_t, cy_soft]) else ([Cy_e, cy_yo] @ ascii '' '' @ [cy_m, cy_a, cy_t, cy_soft]), ascii ''female'')
            else if hd path = ascii ''father''
            then (if he then ([Cy_e, cy_g, cy_o] @ ascii '' '' @ [cy_o, cy_t, cy_e, cy_c]) else ([Cy_e, cy_yo] @ ascii '' '' @ [cy_o, cy_t, cy_e, cy_c]), ascii ''male'')
            else other)
         else if length path = 2 then
           (let isGrandfather = (path ! 1 = ascii ''father'')
            in ((if he then ([Cy_e, cy_g, cy_o] @ ascii '' '') else ([Cy_e, cy_yo] @ ascii '' ''))
                  @ (if isGrandfather then [cy_d, cy_e, cy_d] else [cy_b, cy_a, cy_b, cy_u, cy_sh, cy_k, cy_a]) @ ascii '' (''
                  @ (if hd path = ascii ''mother'' then ([cy_p, cy_o] @ ascii '' '' @ [cy_m, cy_a, cy_t, cy_e, cy_r, cy_i, cy_n, cy_s, cy_k, cy_o, cy_j] @ ascii '' '' @ [cy_l, cy_i, cy_n, cy_i, cy_i])
                     else ([cy_p, cy_o] @ ascii '' '' @ [cy_o, cy_t, cy_c, cy_o, cy_v, cy_s, cy_k, cy_o, cy_j] @ ascii '' '' @ [cy_l, cy_i, cy_n, cy_i, cy_i]))
                  @ ascii '')'',
                if isGrandfather then ascii ''male'' else ascii ''female''))
         else other)"

text \<open>
  The state of one synthesis: the global counter \<open>_id\<close> (\<open>nextId\<close>), the arrays
  \<open>people\<close> and \<open>rels\<close>, and the map \<open>byKey\<close>.  The map holds the person objects
  themselves; every object is created by \<open>add\<close> with a fresh id and pushed to \<open>people\<close>
  at once, so an object is addressed here by its id: \<open>byKey\<close> maps a key to the id, and
  writing a field of a node is an update of the person of that id in \<open>people\<close>.
\<close>

record synth =
  nextId :: nat
  people :: "person list"
  rels :: "edge list"
  byKey :: "jsstring obj"

definition add :: "synth \<Rightarrow> jsstring \<Rightarrow> jsstring \<Rightarrow> jsstring \<times> synth" where
  "add st nm sx =
     (let k = ascii ''name:'' @ nm
      in case map_of (byKey st) k of
           Some i \<Rightarrow> (i, st)
         | None \<Rightarrow>
             let i = show_nat (nextId st)
             in (i, st\<lparr>nextId := nextId st + 1,
                       byKey := AList.update k i (byKey st),
                       people := people st @ [\<lparr>pid = i, name = nm, sex = sx, pnote = None\<rparr>]\<rparr>))"

text \<open>\<open>if (!rels.some(...)) rels.push(...)\<close>\<close>

definition link :: "synth \<Rightarrow> jsstring \<Rightarrow> jsstring \<Rightarrow> synth" where
  "link st parent child =
     (if \<exists>r \<in> set (rels st). parentId r = parent \<and> childId r = child then st
      else st\<lparr>rels := rels st @ [\<lparr>parentId = parent, childId = child\<rparr>]\<rparr>)"

function ensureChain_for ::
  "jsstring \<Rightarrow> jsstring list \<Rightarrow> nat \<Rightarrow> jsstring \<Rightarrow> synth \<Rightarrow> jsstring \<times> synth" where
  "ensureChain_for b stps d child st =
     (if d < length stps then
        (case labelForPath b (take (d + 1) stps) of
           (label, sx) \<Rightarrow>
             (case add st label sx of
                (node, st1) \<Rightarrow> ensureChain_for b stps (d + 1) node (link st1 node child)))
      else (child, st))"
  by pat_completeness auto
termination
  by (relation "measure (\<lambda>(b, stps, d, child, st). length stps - d)") auto

declare ensureChain_for.simps [simp del]

definition ensureChain :: "synth \<Rightarrow> jsstring \<Rightarrow> jsstring list \<Rightarrow> jsstring \<times> synth" where
  "ensureChain st b stps =
     (case add st (if b = ascii ''he'' then [Cy_o, cy_n] else [Cy_o, cy_n, cy_a])
                  (if b = ascii ''he'' then ascii ''male'' else ascii ''female'') of
        (root, st1) \<Rightarrow> ensureChain_for b stps 0 root st1)"

definition set_rank_note :: "synth \<Rightarrow> jsstring \<Rightarrow> jsstring option \<Rightarrow> synth" where
  "set_rank_note st node rnk =
     (case rnk of
        None \<Rightarrow> st
      | Some r \<Rightarrow>
          if r = [] then st
          else st\<lparr>people :=
                 map (\<lambda>p. if pid p = node
                          then p\<lparr>pnote :=
                                 Some (case pnote p of
                                         None \<Rightarrow> r
                                       | Some n \<Rightarrow> if n = [] then r else n @ ascii ''; '' @ r)\<rparr>
                          else p)
                   (people st)\<rparr>)"

definition buildGraphFromSibling_state ::
  "nat \<Rightarrow> relative_spec \<Rightarrow> connector \<Rightarrow> relative_spec \<Rightarrow> synth" where
  "buildGraphFromSibling_state n leftSpec conn rightSpec =
     (case ensureChain \<lparr>nextId = n, people = [], rels = [], byKey = []\<rparr>
             (base leftSpec) (steps leftSpec) of
        (leftNode, st1) \<Rightarrow>
          (case ensureChain (set_rank_note st1 leftNode (rank conn))
                  (base rightSpec) (steps rightSpec) of
             (rightNode, st2) \<Rightarrow>
               (case add st2 ([Cy_o, cy_b, cy_sch, cy_i, cy_j] @ ascii '' '' @ [cy_p, cy_r, cy_a, cy_d, cy_e, cy_d]) (ascii ''male'') of
                  (commonGF, st3) \<Rightarrow>
                    (case add st3 ([Cy_o, cy_b, cy_sch, cy_a, cy_ya] @ ascii '' '' @ [cy_p, cy_r, cy_a, cy_b, cy_a, cy_b, cy_u, cy_sh, cy_k, cy_a]) (ascii ''female'') of
                       (commonGM, st4) \<Rightarrow>
                         link (link (link (link st4 commonGF leftNode) commonGF rightNode)
                                 commonGM leftNode) commonGM rightNode))))"

text \<open>
  The object \<open>{ people, rels }\<close> that \<open>buildGraphFromSibling\<close> returns is the list of
  its properties.
\<close>

datatype graph_field = People "person list" | Rels "edge list"

definition buildGraphFromSibling ::
  "nat \<Rightarrow> relative_spec \<Rightarrow> connector \<Rightarrow> relative_spec \<Rightarrow> graph_field obj \<times> nat" where
  "buildGraphFromSibling n leftSpec conn rightSpec =
     (let st = buildGraphFromSibling_state n leftSpec conn rightSpec
      in ([(ascii ''people'', People (people st)), (ascii ''rels'', Rels (rels st))], nextId st))"

fun split_on :: "nat \<Rightarrow> jsstring \<Rightarrow> jsstring list" where
  "split_on sep [] = [[]]"
| "split_on sep (c # cs) =
     (if c = sep then [] # split_on sep cs
      else case split_on sep cs of [] \<Rightarrow> [[c]] | w # ws \<Rightarrow> (c # w) # ws)"

definition tokenize :: "jsstring \<Rightarrow> jsstring list" where
  "tokenize norm = filter (\<lambda>w. w \<noteq> []) (split_on 32 norm)"

text \<open>
  \<open>parseAdvancedKinship\<close> takes the counter \<open>_id\<close> and returns it with the result: the
  error thrown, or the object built.
\<close>

definition parseAdvancedKinship ::
  "(jsstring \<Rightarrow> jsstring) \<Rightarrow> nat \<Rightarrow> jsstring \<Rightarrow> (parse_error + graph_field obj) \<times> nat" where
  "parseAdvancedKinship lower n inputText =
     (let norm = normalizeText lower inputText
      in if norm = [] then (Inl EmptyInput, n)
         else
           let tokens = tokenize norm
           in case parseRelativeSpec tokens 0 of
                Inl e \<Rightarrow> (Inl e, n)
              | Inr left \<Rightarrow>
                  (case parseSiblingConnector tokens (specNext left) of
                     Inl e \<Rightarrow> (Inl e, n)
                   | Inr conn \<Rightarrow>
                       (case parseRelativeSpec tokens (connNext conn) of
                          Inl e \<Rightarrow> (Inl e, n)
                        | Inr right \<Rightarrow>
                            (case buildGraphFromSibling n left conn right of
                               (g, n') \<Rightarrow> (Inr g, n')))))"

text \<open>The direct add-relation operation \<open>addParentChild\<close>, as a function of the edge list.\<close>

definition addParentChild :: "jsstring \<Rightarrow> jsstring \<Rightarrow> edge list \<Rightarrow> edge list" where
  "addParentChild parentSel childSel arr =
     (if parentSel = [] \<or> childSel = [] \<or> parentSel = childSel then arr
      else if \<exists>r \<in> set arr. parentId r = parentSel \<and> childId r = childSel then arr
      else arr @ [\<lparr>parentId = parentSel, childId = childSel\<rparr>])"

section \<open>Invariants of the graph synthesizer\<close>

lemma show_nat_inj: "show_nat m = show_nat n \<Longrightarrow> m = n"
proof (induction m arbitrary: n rule: show_nat.induct)
  case (1 m)
  have ne: "show_nat k \<noteq> []" for k using show_nat_hd [of k] by simp
  show ?case
  proof (cases "m < 10")
    case m: True
    show ?thesis
    proof (cases "n < 10")
      case True
      with m "1.prems" show ?thesis by (simp add: show_nat.simps [of m] show_nat.simps [of n])
    next
      case False
      with m "1.prems" ne [of "n div 10"] show ?thesis
        by (simp add: show_nat.simps [of m] show_nat.simps [of n])
    qed
  next
    case m: False
    show ?thesis
    proof (cases "n < 10")
      case True
      with m "1.prems" ne [of "m div 10"] show ?thesis
        by (simp add: show_nat.simps [of m] show_nat.simps [of n])
    next
      case False
      with m "1.prems" have "show_nat (m div 10) = show_nat (n div 10)" "m mod 10 = n mod 10"
        by (simp_all add: show_nat.simps [of m] show_nat.simps [of n])
      with "1.IH" [OF m] have "m div 10 = n div 10" "m mod 10 = n mod 10" by simp_all
      then show ?thesis by (metis div_mult_mod_eq)
    qed
  qed
qed

definition edge_inv :: "edge list \<Rightarrow> bool" where
  "edge_inv rs = (distinct rs \<and> (\<forall>e \<in> set rs. parentId e \<noteq> childId e))"

definition key_of :: "jsstring \<Rightarrow> jsstring" where
  "key_of nm = ascii ''name:'' @ nm"

definition named :: "synth \<Rightarrow> jsstring \<Rightarrow> jsstring \<Rightarrow> bool" where
  "named st i nm = (\<exists>p \<in> set (people st). pid p = i \<and> name p = nm)"

definition synth_inv :: "nat \<Rightarrow> synth \<Rightarrow> bool" where
  "synth_inv n0 st =
     (n0 \<le> nextId st \<and>
      map pid (people st) = map show_nat [n0..<nextId st] \<and>
      (\<forall>p \<in> set (people st). map_of (byKey st) (key_of (name p)) = Some (pid p)) \<and>
      (\<forall>k i. map_of (byKey st) k = Some i \<longrightarrow>
          (\<exists>p \<in> set (people st). k = key_of (name p) \<and> i = pid p)) \<and>
      edge_inv (rels st))"

lemma synth_inv_init: "synth_inv n \<lparr>nextId = n, people = [], rels = [], byKey = []\<rparr>"
  by (simp add: synth_inv_def edge_inv_def)

lemma synth_inv_distinct_ids:
  assumes "synth_inv n0 st"
  shows "distinct (map pid (people st))"
proof -
  have "inj show_nat" by (rule injI) (rule show_nat_inj)
  then have "distinct (map show_nat [n0..<nextId st])"
    by (simp add: distinct_map inj_on_def)
  with assms show ?thesis by (simp add: synth_inv_def)
qed

lemma named_unique:
  assumes "synth_inv n0 st" and "named st i nm" and "named st i nm'"
  shows "nm = nm'"
proof -
  from assms(2,3) obtain p q where "p \<in> set (people st)" "q \<in> set (people st)"
    "pid p = i" "pid q = i" "name p = nm" "name q = nm'"
    by (auto simp: named_def)
  moreover from synth_inv_distinct_ids [OF assms(1)] have "inj_on pid (set (people st))"
    by (simp add: distinct_map)
  ultimately show ?thesis by (auto dest: inj_onD)
qed

lemma synth_inv_distinct_names:
  assumes "synth_inv n0 st"
  shows "distinct (map name (people st))"
proof -
  from synth_inv_distinct_ids [OF assms]
  have d: "distinct (people st)" and inj: "inj_on pid (set (people st))"
    by (simp_all add: distinct_map)
  have "inj_on name (set (people st))"
  proof (rule inj_onI)
    fix p q assume pq: "p \<in> set (people st)" "q \<in> set (people st)" "name p = name q"
    with assms have "Some (pid p) = Some (pid q)"
      unfolding synth_inv_def by metis
    with pq inj show "p = q" by (auto dest: inj_onD)
  qed
  with d show ?thesis by (simp add: distinct_map)
qed

lemma add_inv:
  assumes inv: "synth_inv n0 st" and run: "add st nm sx = (i, st')"
  shows "synth_inv n0 st' \<and> named st' i nm \<and> rels st' = rels st
     \<and> (\<forall>j m. named st j m \<longrightarrow> named st' j m)"
proof (cases "map_of (byKey st) (key_of nm)")
  case (Some j)
  with run have eq: "st' = st" "i = j" by (auto simp: add_def key_of_def Let_def)
  from inv Some obtain p where "p \<in> set (people st)" "key_of nm = key_of (name p)" "j = pid p"
    unfolding synth_inv_def by blast
  then have "named st j nm" by (auto simp: named_def key_of_def)
  with inv eq show ?thesis by simp
next
  case None
  let ?i = "show_nat (nextId st)"
  let ?p = "\<lparr>pid = ?i, name = nm, sex = sx, pnote = None\<rparr>"
  from run None have st': "st' = st\<lparr>nextId := nextId st + 1,
      byKey := AList.update (key_of nm) ?i (byKey st), people := people st @ [?p]\<rparr>"
    and i: "i = ?i"
    by (auto simp: add_def key_of_def Let_def)
  from inv have le: "n0 \<le> nextId st"
    and ids: "map pid (people st) = map show_nat [n0..<nextId st]"
    and k1: "\<forall>p \<in> set (people st). map_of (byKey st) (key_of (name p)) = Some (pid p)"
    and k2: "\<forall>k i. map_of (byKey st) k = Some i \<longrightarrow>
          (\<exists>p \<in> set (people st). k = key_of (name p) \<and> i = pid p)"
    and e: "edge_inv (rels st)"
    by (auto simp: synth_inv_def)
  have a: "map pid (people st') = map show_nat [n0..<nextId st']"
    using ids le by (simp add: st')
  have b: "\<forall>p \<in> set (people st'). map_of (byKey st') (key_of (name p)) = Some (pid p)"
  proof
    fix p assume "p \<in> set (people st')"
    then consider "p \<in> set (people st)" | "p = ?p" by (auto simp: st')
    then show "map_of (byKey st') (key_of (name p)) = Some (pid p)"
    proof cases
      case 1
      with k1 have "map_of (byKey st) (key_of (name p)) = Some (pid p)" by blast
      moreover from this None have "key_of (name p) \<noteq> key_of nm" by auto
      ultimately show ?thesis by (simp add: st' update_conv')
    next
      case 2
      then show ?thesis by (simp add: st' update_conv')
    qed
  qed
  have c: "\<forall>k j. map_of (byKey st') k = Some j \<longrightarrow>
          (\<exists>p \<in> set (people st'). k = key_of (name p) \<and> j = pid p)"
  proof (intro allI impI)
    fix k j assume kj: "map_of (byKey st') k = Some j"
    show "\<exists>p \<in> set (people st'). k = key_of (name p) \<and> j = pid p"
    proof (cases "k = key_of nm")
      case True
      with kj have "j = ?i" by (simp add: st' update_conv')
      with True show ?thesis by (auto simp: st')
    next
      case False
      with kj have "map_of (byKey st) k = Some j" by (simp add: st' update_conv')
      with k2 show ?thesis by (auto simp: st')
    qed
  qed
  have "synth_inv n0 st'"
    unfolding synth_inv_def using a b c e le by (simp add: st')
  moreover have "named st' i nm" by (auto simp: named_def st' i)
  moreover have "rels st' = rels st" by (simp add: st')
  moreover have "\<forall>j m. named st j m \<longrightarrow> named st' j m" by (auto simp: named_def st')
  ultimately show ?thesis by simp
qed

lemma link_inv:
  assumes "synth_inv n0 st" and "parent \<noteq> child"
  shows "synth_inv n0 (link st parent child) \<and> people (link st parent child) = people st"
proof -
  from assms(1) have e: "edge_inv (rels st)" by (simp add: synth_inv_def)
  have "edge_inv (rels (link st parent child))"
  proof (cases "\<exists>r \<in> set (rels st). parentId r = parent \<and> childId r = child")
    case True
    with e show ?thesis by (simp add: link_def)
  next
    case False
    then have "\<lparr>parentId = parent, childId = child\<rparr> \<notin> set (rels st)" by force
    with e False assms(2) show ?thesis by (simp add: link_def edge_inv_def)
  qed
  with assms(1) show ?thesis
    by (auto simp: synth_inv_def link_def)
qed

lemma named_link [simp]: "named (link st parent child) i nm = named st i nm"
  by (simp add: named_def link_def)

lemma set_rank_note_inv:
  assumes "synth_inv n0 st"
  shows "synth_inv n0 (set_rank_note st node rnk)
     \<and> (\<forall>j m. named (set_rank_note st node rnk) j m = named st j m)"
proof (cases "rnk = None \<or> rnk = Some []")
  case True
  with assms show ?thesis by (auto simp: set_rank_note_def)
next
  case False
  then obtain r where r: "rnk = Some r" "r \<noteq> []" by auto
  define f :: "person \<Rightarrow> person" where "f = (\<lambda>p. if pid p = node
      then p\<lparr>pnote := Some (case pnote p of None \<Rightarrow> r
                                | Some n \<Rightarrow> if n = [] then r else n @ ascii ''; '' @ r)\<rparr>
      else p)"
  have st': "set_rank_note st node rnk = st\<lparr>people := map f (people st)\<rparr>"
    using r by (simp add: set_rank_note_def f_def)
  have f: "pid (f p) = pid p" "name (f p) = name p" for p by (simp_all add: f_def)
  have "map pid (map f (people st)) = map pid (people st)" by (simp add: f comp_def)
  with assms have "synth_inv n0 (st\<lparr>people := map f (people st)\<rparr>)"
    by (auto simp: synth_inv_def f)
  moreover have "named (st\<lparr>people := map f (people st)\<rparr>) j m = named st j m" for j m
    by (auto simp: named_def f)
  ultimately show ?thesis by (simp add: st')
qed

subsection \<open>The labels of a chain differ from one another\<close>

definition root_name :: "jsstring \<Rightarrow> jsstring" where
  "root_name b = (if b = ascii ''he'' then [Cy_o, cy_n] else [Cy_o, cy_n, cy_a])"

definition chain_name :: "jsstring \<Rightarrow> jsstring list \<Rightarrow> nat \<Rightarrow> jsstring" where
  "chain_name b stps d = (if d = 0 then root_name b else fst (labelForPath b (take d stps)))"

lemma label_not_special:
  "fst (labelForPath b path) \<noteq> [Cy_o, cy_n]" "fst (labelForPath b path) \<noteq> [Cy_o, cy_n, cy_a]"
  "fst (labelForPath b path) \<noteq> ([Cy_o, cy_b, cy_sch, cy_i, cy_j] @ ascii '' '' @ [cy_p, cy_r, cy_a, cy_d, cy_e, cy_d])"
  "fst (labelForPath b path) \<noteq> ([Cy_o, cy_b, cy_sch, cy_a, cy_ya] @ ascii '' '' @ [cy_p, cy_r, cy_a, cy_b, cy_a, cy_b, cy_u, cy_sh, cy_k, cy_a])"
  by (simp_all add: labelForPath_def Let_def)

lemma label_1_2:
  "length p1 = 1 \<Longrightarrow> length p2 = 2 \<Longrightarrow> fst (labelForPath b p1) \<noteq> fst (labelForPath b p2)"
  by (simp add: labelForPath_def Let_def)

lemma label_2_3:
  "length p2 = 2 \<Longrightarrow> length p3 = 3 \<Longrightarrow> fst (labelForPath b p2) \<noteq> fst (labelForPath b p3)"
  by (simp add: labelForPath_def Let_def)

lemma label_generic:
  assumes "3 \<le> length p" and "length p' = Suc (length p)"
  shows "fst (labelForPath b p) \<noteq> fst (labelForPath b p')"
proof -
  have "show_nat (length p) \<noteq> show_nat (Suc (length p))"
    using show_nat_inj [of "length p" "Suc (length p)"] by auto
  moreover from assms have "length p \<noteq> 1" "length p \<noteq> 2" "length p' \<noteq> 1" "length p' \<noteq> 2"
    by linarith+
  ultimately show ?thesis
    using assms(2) by (simp add: labelForPath_def Let_def)
qed

lemma chain_name_step:
  assumes "d < length stps"
  shows "chain_name b stps (Suc d) \<noteq> chain_name b stps d"
proof -
  have len: "length (take (Suc d) stps) = Suc d" "length (take d stps) = d"
    using assms by simp_all
  consider "d = 0" | "d = 1" | "d = 2" | "3 \<le> d" by linarith
  then show ?thesis
  proof cases
    case 1
    then show ?thesis using label_not_special (1,2) by (simp add: chain_name_def root_name_def)
  next
    case 2
    with len show ?thesis
      using label_1_2 [of "take d stps" "take (Suc d) stps" b]
      by (auto simp: chain_name_def)
  next
    case 3
    with len show ?thesis
      using label_2_3 [of "take d stps" "take (Suc d) stps" b]
      by (auto simp: chain_name_def)
  next
    case 4
    with len show ?thesis
      using label_generic [of "take d stps" "take (Suc d) stps" b]
      by (auto simp: chain_name_def)
  qed
qed

lemma chain_name_not_common:
  "chain_name b stps d \<noteq> ([Cy_o, cy_b, cy_sch, cy_i, cy_j] @ ascii '' '' @ [cy_p, cy_r, cy_a, cy_d, cy_e, cy_d])" "chain_name b stps d \<noteq> ([Cy_o, cy_b, cy_sch, cy_a, cy_ya] @ ascii '' '' @ [cy_p, cy_r, cy_a, cy_b, cy_a, cy_b, cy_u, cy_sh, cy_k, cy_a])"
  using label_not_special (3,4) by (simp_all add: chain_name_def root_name_def)

lemma ensureChain_for_inv:
  assumes "synth_inv n0 st" and "named st child (chain_name b stps d)" and "d \<le> length stps"
    and "ensureChain_for b stps d child st = (t, st')"
  shows "synth_inv n0 st' \<and> named st' t (chain_name b stps (length stps))
     \<and> (\<forall>j m. named st j m \<longrightarrow> named st' j m)"
  using assms
proof (induction b stps d child st rule: ensureChain_for.induct)
  case (1 b stps d child st)
  show ?case
  proof (cases "d < length stps")
    case False
    with "1.prems"(4) have "t = child" "st' = st"
      by (simp_all add: ensureChain_for.simps [of b stps d])
    moreover from False "1.prems"(3) have "d = length stps" by simp
    ultimately show ?thesis using "1.prems"(1,2) by simp
  next
    case True
    obtain label sx where lab: "labelForPath b (take (d + 1) stps) = (label, sx)"
      by (cases "labelForPath b (take (d + 1) stps)") auto
    obtain node st1 where ad: "add st label sx = (node, st1)"
      by (cases "add st label sx") auto
    from lab have label: "label = chain_name b stps (Suc d)" by (simp add: chain_name_def)
    from add_inv [OF "1.prems"(1) ad]
    have inv1: "synth_inv n0 st1" and n1: "named st1 node label"
      and keep1: "\<forall>j m. named st j m \<longrightarrow> named st1 j m" by simp_all
    from keep1 "1.prems"(2) have c1: "named st1 child (chain_name b stps d)" by blast
    have "node \<noteq> child"
    proof
      assume "node = child"
      with n1 c1 named_unique [OF inv1] have "label = chain_name b stps d" by blast
      with label chain_name_step [OF True, of b] show False by simp
    qed
    from link_inv [OF inv1 this]
    have inv2: "synth_inv n0 (link st1 node child)" by simp
    from True "1.prems"(4) lab ad
    have run: "ensureChain_for b stps (d + 1) node (link st1 node child) = (t, st')"
      by (simp add: ensureChain_for.simps [of b stps d])
    have "named (link st1 node child) node (chain_name b stps (d + 1))"
      using n1 label by simp
    from "1.IH" [OF True lab [symmetric] ad [symmetric] inv2 this _ run] True
    have "synth_inv n0 st'" "named st' t (chain_name b stps (length stps))"
      "\<forall>j m. named (link st1 node child) j m \<longrightarrow> named st' j m" by simp_all
    with keep1 show ?thesis by simp
  qed
qed

lemma ensureChain_inv:
  assumes "synth_inv n0 st" and "ensureChain st b stps = (t, st')"
  shows "synth_inv n0 st' \<and> named st' t (chain_name b stps (length stps))
     \<and> (\<exists>r. named st' r (root_name b))
     \<and> (\<forall>j m. named st j m \<longrightarrow> named st' j m)"
proof -
  obtain root st1 where ad: "add st (root_name b)
      (if b = ascii ''he'' then ascii ''male'' else ascii ''female'') = (root, st1)"
    by (metis prod.exhaust)
  from add_inv [OF assms(1) ad]
  have inv1: "synth_inv n0 st1" and r: "named st1 root (root_name b)"
    and keep: "\<forall>j m. named st j m \<longrightarrow> named st1 j m" by simp_all
  from assms(2) ad have run: "ensureChain_for b stps 0 root st1 = (t, st')"
    by (simp add: ensureChain_def root_name_def)
  from r have "named st1 root (chain_name b stps 0)" by (simp add: chain_name_def)
  from ensureChain_for_inv [OF inv1 this _ run]
  have "synth_inv n0 st'" "named st' t (chain_name b stps (length stps))"
    "\<forall>j m. named st1 j m \<longrightarrow> named st' j m" by simp_all
  with r keep show ?thesis by blast
qed

lemma buildGraphFromSibling_state_inv:
  "synth_inv n (buildGraphFromSibling_state n l c r)
   \<and> (\<exists>i. named (buildGraphFromSibling_state n l c r) i (root_name (base l)))
   \<and> (\<exists>i. named (buildGraphFromSibling_state n l c r) i (root_name (base r)))"
proof -
  let ?st0 = "\<lparr>nextId = n, people = [], rels = [], byKey = []\<rparr>"
  obtain leftNode st1 where e1: "ensureChain ?st0 (base l) (steps l) = (leftNode, st1)"
    by (metis prod.exhaust)
  from ensureChain_inv [OF synth_inv_init e1]
  have inv1: "synth_inv n st1"
    and ln1: "named st1 leftNode (chain_name (base l) (steps l) (length (steps l)))"
    and root1: "\<exists>i. named st1 i (root_name (base l))" by simp_all
  let ?st1' = "set_rank_note st1 leftNode (rank c)"
  from set_rank_note_inv [OF inv1, of leftNode "rank c"]
  have inv1': "synth_inv n ?st1'" and same: "\<forall>j m. named ?st1' j m = named st1 j m" by simp_all
  obtain rightNode st2 where e2: "ensureChain ?st1' (base r) (steps r) = (rightNode, st2)"
    by (metis prod.exhaust)
  from ensureChain_inv [OF inv1' e2]
  have inv2: "synth_inv n st2"
    and rn2: "named st2 rightNode (chain_name (base r) (steps r) (length (steps r)))"
    and root2: "\<exists>i. named st2 i (root_name (base r))"
    and keep2: "\<forall>j m. named ?st1' j m \<longrightarrow> named st2 j m" by simp_all
  obtain commonGF st3 where a3: "add st2 ([Cy_o, cy_b, cy_sch, cy_i, cy_j] @ ascii '' '' @ [cy_p, cy_r, cy_a, cy_d, cy_e, cy_d]) (ascii ''male'') = (commonGF, st3)"
    by (metis prod.exhaust)
  from add_inv [OF inv2 a3]
  have inv3: "synth_inv n st3" and gf3: "named st3 commonGF ([Cy_o, cy_b, cy_sch, cy_i, cy_j] @ ascii '' '' @ [cy_p, cy_r, cy_a, cy_d, cy_e, cy_d])"
    and keep3: "\<forall>j m. named st2 j m \<longrightarrow> named st3 j m" by simp_all
  obtain commonGM st4 where a4: "add st3 ([Cy_o, cy_b, cy_sch, cy_a, cy_ya] @ ascii '' '' @ [cy_p, cy_r, cy_a, cy_b, cy_a, cy_b, cy_u, cy_sh, cy_k, cy_a]) (ascii ''female'') = (commonGM, st4)"
    by (metis prod.exhaust)
  from add_inv [OF inv3 a4]
  have inv4: "synth_inv n st4" and gm4: "named st4 commonGM ([Cy_o, cy_b, cy_sch, cy_a, cy_ya] @ ascii '' '' @ [cy_p, cy_r, cy_a, cy_b, cy_a, cy_b, cy_u, cy_sh, cy_k, cy_a])"
    and keep4: "\<forall>j m. named st3 j m \<longrightarrow> named st4 j m" by simp_all
  have ln4: "named st4 leftNode (chain_name (base l) (steps l) (length (steps l)))"
    using ln1 same keep2 keep3 keep4 by blast
  have rn4: "named st4 rightNode (chain_name (base r) (steps r) (length (steps r)))"
    using rn2 keep3 keep4 by blast
  have gf4: "named st4 commonGF ([Cy_o, cy_b, cy_sch, cy_i, cy_j] @ ascii '' '' @ [cy_p, cy_r, cy_a, cy_d, cy_e, cy_d])" using gf3 keep4 by blast
  have ne: "commonGF \<noteq> leftNode" "commonGF \<noteq> rightNode" "commonGM \<noteq> leftNode"
    "commonGM \<noteq> rightNode"
    using named_unique [OF inv4 gf4 ] named_unique [OF inv4 gm4] ln4 rn4
      chain_name_not_common by metis+
  let ?s5 = "link st4 commonGF leftNode"
  let ?s6 = "link ?s5 commonGF rightNode"
  let ?s7 = "link ?s6 commonGM leftNode"
  let ?s8 = "link ?s7 commonGM rightNode"
  have inv5: "synth_inv n ?s5" using link_inv [OF inv4 ne(1)] by simp
  have inv6: "synth_inv n ?s6" using link_inv [OF inv5 ne(2)] by simp
  have inv7: "synth_inv n ?s7" using link_inv [OF inv6 ne(3)] by simp
  have inv8: "synth_inv n ?s8" using link_inv [OF inv7 ne(4)] by simp
  have final: "buildGraphFromSibling_state n l c r = ?s8"
    by (simp only: buildGraphFromSibling_state_def e1 e2 a3 a4 prod.case)
  have "\<exists>i. named ?s8 i (root_name (base l))"
    using root1 same keep2 keep3 keep4 by (simp) blast
  moreover have "\<exists>i. named ?s8 i (root_name (base r))"
    using root2 keep3 keep4 by (simp) blast
  ultimately show ?thesis using inv8 final by simp
qed


subsection \<open>The names of the synthesized persons\<close>

definition names_in :: "(jsstring \<Rightarrow> bool) \<Rightarrow> synth \<Rightarrow> bool" where
  "names_in Q st = (\<forall>p \<in> set (people st). Q (name p))"

lemma add_names:
  assumes "names_in Q st" and "Q nm"
  shows "names_in Q (snd (add st nm sx))"
  using assms by (auto simp: add_def Let_def names_in_def split: option.splits)

lemma link_names [simp]: "names_in Q (link st p c) = names_in Q st"
  by (simp add: link_def names_in_def)

lemma names_in_map:
  assumes "\<And>p. name (f p) = name p"
  shows "names_in Q (st\<lparr>people := map f (people st)\<rparr>) = names_in Q st"
  using assms by (simp add: names_in_def)

lemma set_rank_note_names [simp]: "names_in Q (set_rank_note st node r) = names_in Q st"
proof (cases r)
  case None
  then show ?thesis by (simp add: set_rank_note_def)
next
  case (Some x)
  show ?thesis
  proof (cases "x = []")
    case True
    with Some show ?thesis by (simp add: set_rank_note_def)
  next
    case False
    with Some show ?thesis
      unfolding set_rank_note_def by (simp only: option.case if_False) (rule names_in_map, simp)
  qed
qed

lemma ensureChain_for_names:
  assumes "names_in Q st" and "\<And>b path. Q (fst (labelForPath b path))"
  shows "names_in Q (snd (ensureChain_for b stps d child st))"
  using assms(1)
proof (induction b stps d child st rule: ensureChain_for.induct)
  case (1 b stps d child st)
  show ?case
  proof (cases "d < length stps")
    case False
    with "1.prems" show ?thesis by (simp add: ensureChain_for.simps [of b stps d])
  next
    case True
    obtain label sx where lab: "labelForPath b (take (d + 1) stps) = (label, sx)"
      by (cases "labelForPath b (take (d + 1) stps)") auto
    obtain node st1 where ad: "add st label sx = (node, st1)"
      by (cases "add st label sx") auto
    have "Q label" using assms(2) [of b "take (d + 1) stps"] lab by simp
    with "1.prems" add_names [of Q st label sx] ad have "names_in Q st1" by simp
    then have "names_in Q (link st1 node child)" by simp
    from "1.IH" [OF True lab [symmetric] ad [symmetric] this]
    show ?thesis using True lab ad by (simp add: ensureChain_for.simps [of b stps d])
  qed
qed

lemma ensureChain_names:
  assumes "names_in Q st" and "Q (root_name b)" and "\<And>b path. Q (fst (labelForPath b path))"
  shows "names_in Q (snd (ensureChain st b stps))"
proof -
  obtain root st1 where ad: "add st (root_name b)
      (if b = ascii ''he'' then ascii ''male'' else ascii ''female'') = (root, st1)"
    by (metis prod.exhaust)
  from add_names [OF assms(1,2), of "if b = ascii ''he'' then ascii ''male'' else ascii ''female''"] ad
  have "names_in Q st1" by simp
  from ensureChain_for_names [where b = b and stps = stps and d = 0 and child = root, OF this assms(3)] ad
  show ?thesis by (simp add: ensureChain_def root_name_def)
qed

lemma buildGraphFromSibling_state_names:
  assumes "Q (root_name (base l))" and "Q (root_name (base r))"
    and "\<And>b path. Q (fst (labelForPath b path))"
    and "Q ([Cy_o, cy_b, cy_sch, cy_i, cy_j] @ ascii '' '' @ [cy_p, cy_r, cy_a, cy_d, cy_e, cy_d])" and "Q ([Cy_o, cy_b, cy_sch, cy_a, cy_ya] @ ascii '' '' @ [cy_p, cy_r, cy_a, cy_b, cy_a, cy_b, cy_u, cy_sh, cy_k, cy_a])"
  shows "names_in Q (buildGraphFromSibling_state n l c r)"
proof -
  let ?st0 = "\<lparr>nextId = n, people = [], rels = [], byKey = []\<rparr>"
  obtain leftNode st1 where e1: "ensureChain ?st0 (base l) (steps l) = (leftNode, st1)"
    by (metis prod.exhaust)
  have "names_in Q ?st0" by (simp add: names_in_def)
  from ensureChain_names [where stps = "steps l", OF this assms(1) assms(3)] e1
  have n1: "names_in Q (set_rank_note st1 leftNode (rank c))" by simp
  obtain rightNode st2 where
    e2: "ensureChain (set_rank_note st1 leftNode (rank c)) (base r) (steps r) = (rightNode, st2)"
    by (metis prod.exhaust)
  from ensureChain_names [where stps = "steps r", OF n1 assms(2) assms(3)] e2
  have n2: "names_in Q st2" by simp
  obtain commonGF st3 where a3: "add st2 ([Cy_o, cy_b, cy_sch, cy_i, cy_j] @ ascii '' '' @ [cy_p, cy_r, cy_a, cy_d, cy_e, cy_d]) (ascii ''male'') = (commonGF, st3)"
    by (metis prod.exhaust)
  from add_names [OF n2 assms(4), of "ascii ''male''"] a3 have n3: "names_in Q st3" by simp
  obtain commonGM st4 where a4: "add st3 ([Cy_o, cy_b, cy_sch, cy_a, cy_ya] @ ascii '' '' @ [cy_p, cy_r, cy_a, cy_b, cy_a, cy_b, cy_u, cy_sh, cy_k, cy_a]) (ascii ''female'') = (commonGM, st4)"
    by (metis prod.exhaust)
  from add_names [OF n3 assms(5), of "ascii ''female''"] a4 have n4: "names_in Q st4" by simp
  have final: "buildGraphFromSibling_state n l c r
      = link (link (link (link st4 commonGF leftNode) commonGF rightNode) commonGM leftNode)
          commonGM rightNode"
    by (simp only: buildGraphFromSibling_state_def e1 e2 a3 a4 prod.case)
  show ?thesis unfolding final using n4 by simp
qed

lemma other_root_absent:
  assumes "root_name b \<noteq> root_name (base l)" and "root_name b \<noteq> root_name (base r)"
  shows "root_name b \<notin> name ` set (people (buildGraphFromSibling_state n l c r))"
proof -
  have "names_in (\<lambda>nm. nm \<noteq> root_name b) (buildGraphFromSibling_state n l c r)"
  proof (rule buildGraphFromSibling_state_names)
    show "root_name (base l) \<noteq> root_name b" "root_name (base r) \<noteq> root_name b"
      using assms by simp_all
    show "fst (labelForPath b' path) \<noteq> root_name b" for b' path
      using label_not_special (1,2) [of b' path] by (simp add: root_name_def)
    show "([Cy_o, cy_b, cy_sch, cy_i, cy_j] @ ascii '' '' @ [cy_p, cy_r, cy_a, cy_d, cy_e, cy_d]) \<noteq> root_name b" "([Cy_o, cy_b, cy_sch, cy_a, cy_ya] @ ascii '' '' @ [cy_p, cy_r, cy_a, cy_b, cy_a, cy_b, cy_u, cy_sh, cy_k, cy_a]) \<noteq> root_name b"
      by (simp_all add: root_name_def)
  qed
  then show ?thesis by (auto simp: names_in_def)
qed

section \<open>Edge insertion\<close>

text \<open>
  Claim C9.  \<open>edge_inv\<close>: no two equal pairs and no self-loop.  The add-relation
  operation keeps it, changes nothing when the pair is already present and nothing when
  parent and child are the same; the check of the synthesizer (\<open>link\<close>) changes nothing
  when the pair is already present; and the edge list that the synthesizer returns
  satisfies \<open>edge_inv\<close>, for all specifications and every value of the id counter.
\<close>

theorem edge_insertion_invariants:
  "(edge_inv arr \<longrightarrow> edge_inv (addParentChild p c arr)) \<and>
   (\<lparr>parentId = p, childId = c\<rparr> \<in> set arr \<longrightarrow> addParentChild p c arr = arr) \<and>
   addParentChild p p arr = arr \<and>
   (\<lparr>parentId = p, childId = c\<rparr> \<in> set (rels st) \<longrightarrow> link st p c = st) \<and>
   edge_inv (rels (buildGraphFromSibling_state n leftSpec conn rightSpec)) \<and>
   map_of (fst (buildGraphFromSibling n leftSpec conn rightSpec)) (ascii ''rels'')
     = Some (Rels (rels (buildGraphFromSibling_state n leftSpec conn rightSpec)))"
proof -
  have 1: "edge_inv (addParentChild p c arr)" if e: "edge_inv arr"
  proof (cases "p = [] \<or> c = [] \<or> p = c \<or> (\<exists>r \<in> set arr. parentId r = p \<and> childId r = c)")
    case True
    with e show ?thesis by (auto simp: addParentChild_def)
  next
    case False
    then have "\<lparr>parentId = p, childId = c\<rparr> \<notin> set arr" by force
    with e False show ?thesis by (auto simp: addParentChild_def edge_inv_def)
  qed
  have 2: "addParentChild p c arr = arr" if "\<lparr>parentId = p, childId = c\<rparr> \<in> set arr"
  proof -
    from that have "\<exists>r \<in> set arr. parentId r = p \<and> childId r = c" by force
    then show ?thesis by (simp add: addParentChild_def)
  qed
  have 3: "addParentChild p p arr = arr" by (simp add: addParentChild_def)
  have 4: "link st p c = st" if "\<lparr>parentId = p, childId = c\<rparr> \<in> set (rels st)"
  proof -
    from that have "\<exists>r \<in> set (rels st). parentId r = p \<and> childId r = c" by force
    then show ?thesis by (simp add: link_def)
  qed
  have 5: "edge_inv (rels (buildGraphFromSibling_state n leftSpec conn rightSpec))"
    using buildGraphFromSibling_state_inv [of n leftSpec conn rightSpec]
    by (simp add: synth_inv_def)
  have 6: "map_of (fst (buildGraphFromSibling n leftSpec conn rightSpec)) (ascii ''rels'')
     = Some (Rels (rels (buildGraphFromSibling_state n leftSpec conn rightSpec)))"
    by (simp add: buildGraphFromSibling_def Let_def)
  from 1 2 3 4 5 6 show ?thesis by blast
qed

theorem edge_insertion_invariants_witness:
  "edge_inv (addParentChild (ascii ''2'') (ascii ''3'') [mk_edge (ascii ''1'') (ascii ''2'')]) \<and>
   addParentChild (ascii ''1'') (ascii ''2'') [mk_edge (ascii ''1'') (ascii ''2'')]
     = [mk_edge (ascii ''1'') (ascii ''2'')]"
  using edge_insertion_invariants [of "[mk_edge (ascii ''1'') (ascii ''2'')]" "ascii ''2''" "ascii ''3''"]
    edge_insertion_invariants [of "[mk_edge (ascii ''1'') (ascii ''2'')]" "ascii ''1''" "ascii ''2''"]
  by (simp add: edge_inv_def mk_edge_def)

section \<open>What a successful parse returns\<close>

lemma parseAdvancedKinship_Inr:
  assumes "parseAdvancedKinship lower n inputText = (Inr g, n')"
  shows "\<exists>left conn right.
      parseRelativeSpec (tokenize (normalizeText lower inputText)) 0 = Inr left \<and>
      parseSiblingConnector (tokenize (normalizeText lower inputText)) (specNext left) = Inr conn \<and>
      parseRelativeSpec (tokenize (normalizeText lower inputText)) (connNext conn) = Inr right \<and>
      buildGraphFromSibling n left conn right = (g, n')"
  using assms
  by (auto simp: parseAdvancedKinship_def Let_def split: if_splits sum.splits prod.splits)

text \<open>
  Claim C5.  The object of a successful parse has the two properties \<open>people\<close> and
  \<open>rels\<close> and no other.  The persons have distinct names and distinct ids, and the root
  node of either side (\<open>root_name\<close>: "He" for the pronoun "his", "She" otherwise) is among
  them, so that a caller finds the roots by name.  No other root is among them: when both
  sides have the same pronoun, the root of the other pronoun is not created.
\<close>

theorem parse_returns_people_and_rels:
  assumes "parseAdvancedKinship lower n inputText = (Inr g, n')"
  shows "\<exists>left conn right ps rs.
      g = [(ascii ''people'', People ps), (ascii ''rels'', Rels rs)] \<and>
      parseRelativeSpec (tokenize (normalizeText lower inputText)) 0 = Inr left \<and>
      parseSiblingConnector (tokenize (normalizeText lower inputText)) (specNext left) = Inr conn \<and>
      parseRelativeSpec (tokenize (normalizeText lower inputText)) (connNext conn) = Inr right \<and>
      distinct (map name ps) \<and> distinct (map pid ps) \<and>
      (\<forall>b. root_name b \<in> name ` set ps \<longleftrightarrow>
           root_name b = root_name (base left) \<or> root_name b = root_name (base right))"
proof -
  from parseAdvancedKinship_Inr [OF assms] obtain left conn right where
    p: "parseRelativeSpec (tokenize (normalizeText lower inputText)) 0 = Inr left"
      "parseSiblingConnector (tokenize (normalizeText lower inputText)) (specNext left) = Inr conn"
      "parseRelativeSpec (tokenize (normalizeText lower inputText)) (connNext conn) = Inr right"
    and b: "buildGraphFromSibling n left conn right = (g, n')"
    by blast
  let ?st = "buildGraphFromSibling_state n left conn right"
  from b have g: "g = [(ascii ''people'', People (people ?st)), (ascii ''rels'', Rels (rels ?st))]"
    by (simp add: buildGraphFromSibling_def Let_def)
  from buildGraphFromSibling_state_inv [of n left conn right]
  have inv: "synth_inv n ?st" and roots: "\<exists>i. named ?st i (root_name (base left))"
    "\<exists>i. named ?st i (root_name (base right))" by simp_all
  from roots have "root_name (base left) \<in> name ` set (people ?st)"
    "root_name (base right) \<in> name ` set (people ?st)"
    unfolding named_def image_iff by metis+
  with other_root_absent [of _ left right n conn]
  have "\<forall>b. root_name b \<in> name ` set (people ?st) \<longleftrightarrow>
      root_name b = root_name (base left) \<or> root_name b = root_name (base right)"
    by metis
  with g p synth_inv_distinct_names [OF inv] synth_inv_distinct_ids [OF inv]
  show ?thesis by blast
qed

text \<open>
  A phrase with the same pronoun on both sides: "his mother [is the] sister [of] his
  father".
\<close>

definition ex_phrase_his :: jsstring where
  "ex_phrase_his = ([cy_e, cy_g, cy_o] @ ascii '' '' @ [cy_m, cy_a, cy_t, cy_soft] @ ascii '' '' @ [cy_s, cy_e, cy_s, cy_t, cy_r, cy_a] @ ascii '' '' @ [cy_e, cy_g, cy_o] @ ascii '' '' @ [cy_o, cy_t, cy_e, cy_c])"

lemma ex_phrase_his_parses: "\<not> isl (fst (parseAdvancedKinship toLowerCase 1 ex_phrase_his))"
  by code_simp

lemma ex_phrase_his_bases:
  "(case parseRelativeSpec (tokenize (normalizeText toLowerCase ex_phrase_his)) 0 of
      Inl e \<Rightarrow> False | Inr left \<Rightarrow> base left = ascii ''he'' \<and> specNext left = 2)"
  "(case parseSiblingConnector (tokenize (normalizeText toLowerCase ex_phrase_his)) 2 of
      Inl e \<Rightarrow> False | Inr conn \<Rightarrow> connNext conn = 3)"
  "(case parseRelativeSpec (tokenize (normalizeText toLowerCase ex_phrase_his)) 3 of
      Inl e \<Rightarrow> False | Inr right \<Rightarrow> base right = ascii ''he'')"
  by code_simp+

theorem parse_returns_people_and_rels_witness:
  "\<exists>ps rs. fst (parseAdvancedKinship toLowerCase 1 ex_phrase_his)
       = Inr [(ascii ''people'', People ps), (ascii ''rels'', Rels rs)] \<and>
     distinct (map name ps) \<and> distinct (map pid ps) \<and>
     [Cy_o, cy_n] \<in> name ` set ps \<and> [Cy_o, cy_n, cy_a] \<notin> name ` set ps"
proof -
  from ex_phrase_his_parses obtain g n' where
    run: "parseAdvancedKinship toLowerCase 1 ex_phrase_his = (Inr g, n')"
    by (cases "parseAdvancedKinship toLowerCase 1 ex_phrase_his"; cases "fst (parseAdvancedKinship toLowerCase 1 ex_phrase_his)") auto
  from parse_returns_people_and_rels [OF run] obtain left conn right ps rs where
    r: "g = [(ascii ''people'', People ps), (ascii ''rels'', Rels rs)]"
      "parseRelativeSpec (tokenize (normalizeText toLowerCase ex_phrase_his)) 0 = Inr left"
      "parseSiblingConnector (tokenize (normalizeText toLowerCase ex_phrase_his)) (specNext left) = Inr conn"
      "parseRelativeSpec (tokenize (normalizeText toLowerCase ex_phrase_his)) (connNext conn) = Inr right"
      "distinct (map name ps)" "distinct (map pid ps)"
      "\<forall>b. root_name b \<in> name ` set ps \<longleftrightarrow>
           root_name b = root_name (base left) \<or> root_name b = root_name (base right)"
    by blast
  from r(2) ex_phrase_his_bases(1) have left: "base left = ascii ''he''" "specNext left = 2"
    by simp_all
  from r(3) left ex_phrase_his_bases(2) have conn: "connNext conn = 3" by simp
  from r(4) conn ex_phrase_his_bases(3) have right: "base right = ascii ''he''" by simp
  from r(7) [rule_format, of "ascii ''he''"] left right have he: "[Cy_o, cy_n] \<in> name ` set ps"
    by (simp add: root_name_def)
  from r(7) [rule_format, of "ascii ''she''"] left right have she: "[Cy_o, cy_n, cy_a] \<notin> name ` set ps"
    by (simp add: root_name_def)
  from r(1,5,6) run he she show ?thesis by simp
qed

text \<open>
  The object returned for the phrase of the program's header has no property
  \<open>rootIdHe\<close> and no property \<open>rootIdShe\<close>.
\<close>

theorem parse_returns_no_root_ids:
  "(case fst (parseAdvancedKinship toLowerCase 1 ex_phrase) of
      Inl e \<Rightarrow> False
    | Inr g \<Rightarrow> map fst g = [ascii ''people'', ascii ''rels'']
        \<and> map_of g (ascii ''rootIdHe'') = None \<and> map_of g (ascii ''rootIdShe'') = None)"
  by code_simp

section \<open>A grandparent term without its line clause\<close>

text \<open>
  \<open>lacks_line tokens i\<close>: at position \<open>i\<close> stands a pronoun, after it a grandfather or
  grandmother word, and after that no line clause.
\<close>

definition lacks_line :: "jsstring list \<Rightarrow> nat \<Rightarrow> bool" where
  "lacks_line tokens i =
     (case token_at tokens i of
        None \<Rightarrow> False
      | Some pron \<Rightarrow>
          pron \<in> PRONOUN \<and>
          (case token_at tokens (i + 1) of
             None \<Rightarrow> False
           | Some w \<Rightarrow> (isGrandfatherWord w \<or> isGrandmotherWord w)
                \<and> fst (takeLine tokens (i + 2)) = None))"

lemma grand_word_facts:
  assumes "isGrandfatherWord w \<or> isGrandmotherWord w"
  shows "w \<noteq> []" "w \<notin> motherWords" "w \<notin> fatherWords"
  using assms
  by (auto simp: isGrandfatherWord_def isGrandmotherWord_def motherWords_def fatherWords_def)

lemma parseRelativeSpec_lacks_line:
  assumes "lacks_line tokens i"
  shows "parseRelativeSpec tokens i = Inl MissingLine"
proof -
  from assms obtain pron w where t: "token_at tokens i = Some pron" "pron \<in> PRONOUN"
    "token_at tokens (i + 1) = Some w" "isGrandfatherWord w \<or> isGrandmotherWord w"
    "fst (takeLine tokens (i + 2)) = None"
    by (auto simp: lacks_line_def split: option.splits)
  obtain nxt where "takeLine tokens (i + 1 + 1) = (None, nxt)"
    using t(5) by (cases "takeLine tokens (i + 2)") auto
  with t grand_word_facts [OF t(4)] show ?thesis
    by (simp add: parseRelativeSpec_def Let_def)
qed

lemma tokenize_Nil: "tokenize [] = []"
  by (simp add: tokenize_def)

text \<open>
  Claim C7.  When the relation term of the left specification, or of the right one after
  the left specification and the connector have been parsed, is a grandparent word that
  no line clause follows, parsing fails with the error \<open>MissingLine\<close>, whose message asks
  for the line; no object is returned and the id counter is left as it was.
\<close>

theorem missing_line_is_an_error:
  assumes "tokens = tokenize (normalizeText lower inputText)"
    and "lacks_line tokens 0 \<or>
      (\<exists>left conn. parseRelativeSpec tokens 0 = Inr left \<and>
         parseSiblingConnector tokens (specNext left) = Inr conn \<and>
         lacks_line tokens (connNext conn))"
  shows "parseAdvancedKinship lower n inputText = (Inl MissingLine, n)"
proof -
  have ne: "normalizeText lower inputText \<noteq> []"
  proof
    assume "normalizeText lower inputText = []"
    with assms(1) have "tokens = []" by (simp add: tokenize_Nil)
    with assms(2) show False
      by (auto simp: lacks_line_def token_at_def parseRelativeSpec_def)
  qed
  from assms(2) show ?thesis
  proof
    assume "lacks_line tokens 0"
    then have "parseRelativeSpec tokens 0 = Inl MissingLine"
      by (rule parseRelativeSpec_lacks_line)
    with ne assms(1) show ?thesis by (simp add: parseAdvancedKinship_def Let_def)
  next
    assume "\<exists>left conn. parseRelativeSpec tokens 0 = Inr left \<and>
         parseSiblingConnector tokens (specNext left) = Inr conn \<and>
         lacks_line tokens (connNext conn)"
    then obtain left conn where "parseRelativeSpec tokens 0 = Inr left"
      "parseSiblingConnector tokens (specNext left) = Inr conn"
      "parseRelativeSpec tokens (connNext conn) = Inl MissingLine"
      using parseRelativeSpec_lacks_line by blast
    with ne assms(1) show ?thesis by (simp add: parseAdvancedKinship_def Let_def)
  qed
qed

text \<open>
  Scenario 5, "his grandfather - older brother of her mother", and a phrase whose last
  token is a grandfather word that no line clause follows, after a complete sentence.
\<close>

definition ex_phrase_5 :: jsstring where
  "ex_phrase_5 = ([cy_e, cy_g, cy_o] @ ascii '' '' @ [cy_d, cy_e, cy_d] @ ascii '' - '' @ [cy_s, cy_t, cy_a, cy_r, cy_sh, cy_i, cy_j] @ ascii '' '' @ [cy_b, cy_r, cy_a, cy_t] @ ascii '' '' @ [cy_e, cy_yo] @ ascii '' '' @ [cy_m, cy_a, cy_t, cy_e, cy_r, cy_i])"

definition ex_phrase_tail :: jsstring where
  "ex_phrase_tail = ([cy_e, cy_g, cy_o] @ ascii '' '' @ [cy_m, cy_a, cy_t, cy_soft] @ ascii '' '' @ [cy_s, cy_e, cy_s, cy_t, cy_r, cy_a] @ ascii '' '' @ [cy_e, cy_e] @ ascii '' '' @ [cy_m, cy_a, cy_t, cy_soft] @ ascii '' '' @ [cy_d, cy_e, cy_d])"

lemma ex_phrase_5_lacks_line: "lacks_line (tokenize (normalizeText toLowerCase ex_phrase_5)) 0"
  by code_simp

theorem missing_line_is_an_error_witness:
  "lacks_line (tokenize (normalizeText toLowerCase ex_phrase_5)) 0 \<and>
   parseAdvancedKinship toLowerCase 1 ex_phrase_5 = (Inl MissingLine, 1) \<and>
   take 14 (message MissingLine) = ([Cy_u, cy_t, cy_o, cy_ch, cy_n, cy_i, cy_t, cy_e] @ ascii '' '' @ [cy_l, cy_i, cy_n, cy_i, cy_yu])"
  using missing_line_is_an_error [OF refl disjI1, OF ex_phrase_5_lacks_line, of 1]
    ex_phrase_5_lacks_line
  by (simp add: message_def)

theorem trailing_grandparent_term_parses:
  "isGrandfatherWord (tokenize (normalizeText toLowerCase ex_phrase_tail) ! 5) \<and>
   fst (takeLine (tokenize (normalizeText toLowerCase ex_phrase_tail)) 6) = None \<and>
   \<not> isl (fst (parseAdvancedKinship toLowerCase 1 ex_phrase_tail))"
  by code_simp

end
